theory Spec2Isabelle
  imports Main "HOL-Library.Multiset"
begin

section \<open>heap\_utils: binary-heap helpers over a vector\<close>

text \<open>
  The header \<^verbatim>\<open>include/heap_utils/heap_utils.hpp\<close> wraps four algorithms of the C++
  standard library (\<^verbatim>\<open>std::make_heap\<close>, \<^verbatim>\<open>std::push_heap\<close>, \<^verbatim>\<open>std::pop_heap\<close>,
  \<^verbatim>\<open>std::is_heap\<close>) and adds \<^verbatim>\<open>heap_top\<close>, \<^verbatim>\<open>top_k\<close>, \<^verbatim>\<open>largest_k\<close> and
  \<^verbatim>\<open>smallest_k\<close>.

  A \<^verbatim>\<open>std::vector<T>\<close> is a list, an index or a \<^verbatim>\<open>std::size_t\<close> count is a natural
  number (no arithmetic of the header can overflow: counters stay below the length of
  the vector), a comparator is a function \<open>'a \<Rightarrow> 'a \<Rightarrow> bool\<close>, in-place mutation is
  state passing (the function returns the new vector), and a thrown
  \<^verbatim>\<open>std::runtime_error\<close> is the left injection of a sum.
\<close>

subsection \<open>The standard-library algorithms the header calls\<close>

text \<open>
  The four \<^verbatim>\<open>std::\<close> algorithms are not part of the repository. They are written here
  after the implementation in GNU libstdc++ (\<^verbatim>\<open>bits/stl_heap.h\<close>), loop by loop, with
  the library's variable names. A moved-from slot (the "hole") keeps its old content
  in the model; every hole is overwritten before the algorithm returns.

  The library computes with a signed \<^verbatim>\<open>_Distance\<close>. The only place where a
  subtraction can go below zero is \<^verbatim>\<open>(__holeIndex - 1) / 2\<close> at hole 0 and
  \<^verbatim>\<open>(__len - 2) / 2\<close> at length 1; C++ division truncates towards zero, so both are
  0, which is also what truncating subtraction on \<open>nat\<close> gives.
\<close>

text \<open>\<^verbatim>\<open>std::__push_heap(first, holeIndex, topIndex, value, cmp)\<close>: move the hole up
  while its parent is before the value, then store the value.\<close>

function std_push_heap_impl ::
  "('a \<Rightarrow> 'a \<Rightarrow> bool) \<Rightarrow> 'a list \<Rightarrow> nat \<Rightarrow> nat \<Rightarrow> 'a \<Rightarrow> 'a list" where
  "std_push_heap_impl cmp xs holeIndex topIndex v =
     (let parent = (holeIndex - 1) div 2 in
      if holeIndex > topIndex \<and> cmp (xs ! parent) v
      then std_push_heap_impl cmp (xs[holeIndex := xs ! parent]) parent topIndex v
      else xs[holeIndex := v])"
  by pat_completeness auto
termination
  by (relation "measure (\<lambda>(cmp, xs, holeIndex, topIndex, v). holeIndex)") auto

text \<open>\<^verbatim>\<open>std::push_heap(first, last, cmp)\<close>: the value at \<^verbatim>\<open>last - 1\<close> is pushed
  from the last index towards index 0.\<close>

definition std_push_heap :: "('a \<Rightarrow> 'a \<Rightarrow> bool) \<Rightarrow> 'a list \<Rightarrow> 'a list" where
  "std_push_heap cmp xs =
     (let v = xs ! (length xs - 1)
      in std_push_heap_impl cmp xs (length xs - 1) 0 v)"

text \<open>The first loop of \<^verbatim>\<open>std::__adjust_heap\<close>: the hole moves down to the child
  that is not before its sibling, as long as the hole has two children. The result is
  the array with the final \<^verbatim>\<open>__holeIndex\<close> and \<^verbatim>\<open>__secondChild\<close>.\<close>

function std_adjust_heap_loop ::
  "('a \<Rightarrow> 'a \<Rightarrow> bool) \<Rightarrow> 'a list \<Rightarrow> nat \<Rightarrow> nat \<Rightarrow> nat \<Rightarrow> 'a list \<times> nat \<times> nat" where
  "std_adjust_heap_loop cmp xs holeIndex secondChild len =
     (if secondChild < (len - 1) div 2
      then (let secondChild1 = 2 * (secondChild + 1);
                secondChild2 = (if cmp (xs ! secondChild1) (xs ! (secondChild1 - 1))
                                then secondChild1 - 1 else secondChild1)
            in std_adjust_heap_loop cmp (xs[holeIndex := xs ! secondChild2])
                 secondChild2 secondChild2 len)
      else (xs, holeIndex, secondChild))"
  by pat_completeness auto
termination
  by (relation "measure (\<lambda>(cmp, xs, holeIndex, secondChild, len). len - secondChild)")
     (auto simp: Let_def)

text \<open>\<^verbatim>\<open>std::__adjust_heap(first, holeIndex, len, value, cmp)\<close>: the loop above, the
  step for a last parent with a single child (even \<^verbatim>\<open>len\<close>), then
  \<^verbatim>\<open>__push_heap\<close> from the leaf hole back up to the starting index.\<close>

definition std_adjust_heap ::
  "('a \<Rightarrow> 'a \<Rightarrow> bool) \<Rightarrow> 'a list \<Rightarrow> nat \<Rightarrow> nat \<Rightarrow> 'a \<Rightarrow> 'a list" where
  "std_adjust_heap cmp xs holeIndex len v =
     (let topIndex = holeIndex in
      case std_adjust_heap_loop cmp xs holeIndex holeIndex len of
        (xs1, holeIndex1, secondChild1) \<Rightarrow>
          if len mod 2 = 0 \<and> secondChild1 = (len - 2) div 2
          then (let secondChild2 = 2 * (secondChild1 + 1)
                in std_push_heap_impl cmp (xs1[holeIndex1 := xs1 ! (secondChild2 - 1)])
                     (secondChild2 - 1) topIndex v)
          else std_push_heap_impl cmp xs1 holeIndex1 topIndex v)"

text \<open>\<^verbatim>\<open>std::pop_heap(first, last, cmp)\<close>: for a range longer than one,
  \<^verbatim>\<open>__pop_heap\<close> saves the last value, stores the first value in the last slot and
  adjusts the range without its last slot, starting with the hole at index 0.\<close>

definition std_pop_heap :: "('a \<Rightarrow> 'a \<Rightarrow> bool) \<Rightarrow> 'a list \<Rightarrow> 'a list" where
  "std_pop_heap cmp xs =
     (if length xs > 1
      then (let lastIndex = length xs - 1;
                v = xs ! lastIndex
            in std_adjust_heap cmp (xs[lastIndex := xs ! 0]) 0 lastIndex v)
      else xs)"

text \<open>The loop of \<^verbatim>\<open>std::__make_heap\<close>: \<^verbatim>\<open>__adjust_heap\<close> at every parent index, from
  \<^verbatim>\<open>(len - 2) / 2\<close> down to 0.\<close>

fun std_make_heap_loop :: "('a \<Rightarrow> 'a \<Rightarrow> bool) \<Rightarrow> 'a list \<Rightarrow> nat \<Rightarrow> nat \<Rightarrow> 'a list" where
  "std_make_heap_loop cmp xs 0 len = std_adjust_heap cmp xs 0 len (xs ! 0)"
| "std_make_heap_loop cmp xs (Suc parent) len =
     std_make_heap_loop cmp
       (std_adjust_heap cmp xs (Suc parent) len (xs ! Suc parent)) parent len"

definition std_make_heap :: "('a \<Rightarrow> 'a \<Rightarrow> bool) \<Rightarrow> 'a list \<Rightarrow> 'a list" where
  "std_make_heap cmp xs =
     (if length xs < 2 then xs
      else std_make_heap_loop cmp xs ((length xs - 2) div 2) (length xs))"

text \<open>\<^verbatim>\<open>std::__is_heap_until(first, n, cmp)\<close>: the first child that its parent is
  before, or \<open>n\<close>; the parent index advances after every even child.\<close>

function std_is_heap_until ::
  "('a \<Rightarrow> 'a \<Rightarrow> bool) \<Rightarrow> 'a list \<Rightarrow> nat \<Rightarrow> nat \<Rightarrow> nat \<Rightarrow> nat" where
  "std_is_heap_until cmp xs parent child n =
     (if child < n
      then (if cmp (xs ! parent) (xs ! child) then child
            else std_is_heap_until cmp xs
                   (if child mod 2 = 0 then parent + 1 else parent) (child + 1) n)
      else n)"
  by pat_completeness auto
termination
  by (relation "measure (\<lambda>(cmp, xs, parent, child, n). n - child)") auto

definition std_is_heap :: "('a \<Rightarrow> 'a \<Rightarrow> bool) \<Rightarrow> 'a list \<Rightarrow> bool" where
  "std_is_heap cmp xs = (std_is_heap_until cmp xs 0 1 (length xs) = length xs)"

subsection \<open>The functions of the header\<close>

datatype error = Runtime_error string

text \<open>\<^verbatim>\<open>heapify(begin, end, cmp)\<close> over the whole vector.\<close>

definition heapify :: "('a \<Rightarrow> 'a \<Rightarrow> bool) \<Rightarrow> 'a list \<Rightarrow> 'a list" where
  "heapify cmp xs = std_make_heap cmp xs"

text \<open>\<^verbatim>\<open>heap_push(data, value, cmp)\<close>: \<^verbatim>\<open>push_back\<close>, then \<^verbatim>\<open>std::push_heap\<close>. The
  copying and the moving overload have the same body.\<close>

definition heap_push :: "('a \<Rightarrow> 'a \<Rightarrow> bool) \<Rightarrow> 'a list \<Rightarrow> 'a \<Rightarrow> 'a list" where
  "heap_push cmp data v = std_push_heap cmp (data @ [v])"

text \<open>\<^verbatim>\<open>heap_top(data)\<close> takes a \<^verbatim>\<open>const\<close> vector and no comparator.\<close>

definition heap_top :: "'a list \<Rightarrow> error + 'a" where
  "heap_top data =
     (if data = [] then Inl (Runtime_error ''heap_utils: heap_top() on empty heap'')
      else Inr (hd data))"

text \<open>\<^verbatim>\<open>heap_pop(data, cmp)\<close> returns the thrown error or the popped value, together
  with the vector as the call leaves it.\<close>

definition heap_pop :: "('a \<Rightarrow> 'a \<Rightarrow> bool) \<Rightarrow> 'a list \<Rightarrow> (error + 'a) \<times> 'a list" where
  "heap_pop cmp data =
     (if data = [] then (Inl (Runtime_error ''heap_utils: heap_pop() on empty heap''), data)
      else (let data1 = std_pop_heap cmp data;
                out = last data1
            in (Inr out, butlast data1)))"

text \<open>\<^verbatim>\<open>is_heap(begin, end, cmp)\<close> over the whole vector.\<close>

definition is_heap :: "('a \<Rightarrow> 'a \<Rightarrow> bool) \<Rightarrow> 'a list \<Rightarrow> bool" where
  "is_heap cmp xs = std_is_heap cmp xs"

text \<open>\<^verbatim>\<open>top_k(data, k, comp)\<close>: \<^verbatim>\<open>data\<close> is the function's own by-value copy. The loop
  pushes the result of \<^verbatim>\<open>heap_pop\<close> to \<^verbatim>\<open>out\<close> \<open>kk\<close> times; an exception thrown by
  \<^verbatim>\<open>heap_pop\<close> would leave \<^verbatim>\<open>top_k\<close> as it is.\<close>

function top_k_loop ::
  "('a \<Rightarrow> 'a \<Rightarrow> bool) \<Rightarrow> 'a list \<Rightarrow> 'a list \<Rightarrow> nat \<Rightarrow> nat \<Rightarrow> error + 'a list" where
  "top_k_loop cmp data out i kk =
     (if i < kk
      then (case heap_pop cmp data of
              (Inl e, data1) \<Rightarrow> Inl e
            | (Inr x, data1) \<Rightarrow> top_k_loop cmp data1 (out @ [x]) (i + 1) kk)
      else Inr out)"
  by pat_completeness auto
termination
  by (relation "measure (\<lambda>(cmp, data, out, i, kk). kk - i)") auto

definition top_k :: "('a \<Rightarrow> 'a \<Rightarrow> bool) \<Rightarrow> 'a list \<Rightarrow> nat \<Rightarrow> error + 'a list" where
  "top_k cmp data k =
     (if k = 0 \<or> data = [] then Inr []
      else (let data1 = heapify cmp data;
                n = length data1;
                kk = (if k > n then n else k)
            in top_k_loop cmp data1 [] 0 kk))"

text \<open>\<^verbatim>\<open>largest_k\<close> passes \<^verbatim>\<open>std::less<>\<close>, \<^verbatim>\<open>smallest_k\<close> passes \<^verbatim>\<open>std::greater<>\<close>.\<close>

definition largest_k :: "'a::ord list \<Rightarrow> nat \<Rightarrow> error + 'a list" where
  "largest_k data k = top_k (\<lambda>a b. a < b) data k"

definition smallest_k :: "'a::ord list \<Rightarrow> nat \<Rightarrow> error + 'a list" where
  "smallest_k data k = top_k (\<lambda>a b. a > b) data k"

text \<open>The loop of the two heap examples (\<^verbatim>\<open>examples/max_heap_example.cpp\<close>,
  \<^verbatim>\<open>examples/min_heap_example.cpp\<close>): \<^verbatim>\<open>while (!heap.empty())\<close> print
  \<^verbatim>\<open>heap_pop(heap, comp)\<close>. The result is the sequence of printed values.\<close>

function drain :: "('a \<Rightarrow> 'a \<Rightarrow> bool) \<Rightarrow> 'a list \<Rightarrow> error + 'a list" where
  "drain cmp heap =
     (if heap \<noteq> []
      then (case heap_pop cmp heap of
              (Inl e, heap1) \<Rightarrow> Inl e
            | (Inr x, heap1) \<Rightarrow>
                (case drain cmp heap1 of Inl e \<Rightarrow> Inl e | Inr out \<Rightarrow> Inr (x # out)))
      else Inr [])"
  by pat_completeness auto

subsection \<open>Calls of \<open>top_k\<close> with an explicit store\<close>

text \<open>
  To say what a call does to the vector of the caller, the vectors of the program are
  kept in a store indexed by object. \<open>heapify_at\<close> and \<open>heap_pop_at\<close> are \<open>heapify\<close>
  and \<open>heap_pop\<close> applied to the vector they are given by reference;
  \<open>top_k_loop_at\<close> and \<open>top_k_at\<close> are the body of \<^verbatim>\<open>top_k\<close> running on its parameter
  object \<open>r\<close>. \<open>call_top_k\<close> is the call \<^verbatim>\<open>top_k(v, k, comp)\<close> with the caller's
  vector \<open>arg\<close>: the by-value parameter \<open>param\<close> is a new object, copy-constructed from
  \<open>arg\<close>. \<open>call_largest_k\<close> and \<open>call_smallest_k\<close> copy the caller's vector into their
  own parameter \<open>param\<close> and move it (\<^verbatim>\<open>std::move(data)\<close>) into the parameter \<open>param1\<close>
  of \<^verbatim>\<open>top_k\<close>, which leaves \<open>param\<close> empty.
\<close>

type_synonym 'a store = "nat \<Rightarrow> 'a list"

definition heapify_at :: "('a \<Rightarrow> 'a \<Rightarrow> bool) \<Rightarrow> nat \<Rightarrow> 'a store \<Rightarrow> 'a store" where
  "heapify_at cmp r s = s(r := heapify cmp (s r))"

definition heap_pop_at ::
  "('a \<Rightarrow> 'a \<Rightarrow> bool) \<Rightarrow> nat \<Rightarrow> 'a store \<Rightarrow> (error + 'a) \<times> 'a store" where
  "heap_pop_at cmp r s = (case heap_pop cmp (s r) of (res, data1) \<Rightarrow> (res, s(r := data1)))"

function top_k_loop_at ::
  "('a \<Rightarrow> 'a \<Rightarrow> bool) \<Rightarrow> nat \<Rightarrow> 'a store \<Rightarrow> 'a list \<Rightarrow> nat \<Rightarrow> nat \<Rightarrow> (error + 'a list) \<times> 'a store" where
  "top_k_loop_at cmp r s out i kk =
     (if i < kk
      then (case heap_pop_at cmp r s of
              (Inl e, s1) \<Rightarrow> (Inl e, s1)
            | (Inr x, s1) \<Rightarrow> top_k_loop_at cmp r s1 (out @ [x]) (i + 1) kk)
      else (Inr out, s))"
  by pat_completeness auto
termination
  by (relation "measure (\<lambda>(cmp, r, s, out, i, kk). kk - i)") auto

definition top_k_at ::
  "('a \<Rightarrow> 'a \<Rightarrow> bool) \<Rightarrow> nat \<Rightarrow> nat \<Rightarrow> 'a store \<Rightarrow> (error + 'a list) \<times> 'a store" where
  "top_k_at cmp r k s =
     (if k = 0 \<or> s r = [] then (Inr [], s)
      else (let s1 = heapify_at cmp r s;
                n = length (s1 r);
                kk = (if k > n then n else k)
            in top_k_loop_at cmp r s1 [] 0 kk))"

definition call_top_k ::
  "('a \<Rightarrow> 'a \<Rightarrow> bool) \<Rightarrow> nat \<Rightarrow> nat \<Rightarrow> nat \<Rightarrow> 'a store \<Rightarrow> (error + 'a list) \<times> 'a store" where
  "call_top_k cmp arg param k s = top_k_at cmp param k (s(param := s arg))"

definition call_largest_k ::
  "nat \<Rightarrow> nat \<Rightarrow> nat \<Rightarrow> nat \<Rightarrow> ('a::ord) store \<Rightarrow> (error + 'a list) \<times> 'a store" where
  "call_largest_k arg param param1 k s =
     (let s1 = s(param := s arg);
          s2 = s1(param1 := s1 param, param := [])
      in top_k_at (\<lambda>a b. a < b) param1 k s2)"

definition call_smallest_k ::
  "nat \<Rightarrow> nat \<Rightarrow> nat \<Rightarrow> nat \<Rightarrow> ('a::ord) store \<Rightarrow> (error + 'a list) \<times> 'a store" where
  "call_smallest_k arg param param1 k s =
     (let s1 = s(param := s arg);
          s2 = s1(param1 := s1 param, param := [])
      in top_k_at (\<lambda>a b. a > b) param1 k s2)"

subsection \<open>The comparator requirement and the heap invariant\<close>

text \<open>A valid comparator is a strict weak ordering, as the C++ standard asks of
  \<^verbatim>\<open>Compare\<close>: irreflexive, transitive, and with a transitive equivalence
  "neither is before the other".\<close>

definition strict_weak_order :: "('a \<Rightarrow> 'a \<Rightarrow> bool) \<Rightarrow> bool" where
  "strict_weak_order cmp \<longleftrightarrow>
     (\<forall>a. \<not> cmp a a) \<and>
     (\<forall>a b c. cmp a b \<longrightarrow> cmp b c \<longrightarrow> cmp a c) \<and>
     (\<forall>a b c. \<not> cmp a b \<and> \<not> cmp b a \<longrightarrow> \<not> cmp b c \<and> \<not> cmp c b
              \<longrightarrow> \<not> cmp a c \<and> \<not> cmp c a)"

text \<open>The heap invariant of the data model: no parent is before its child, the parent
  of position \<open>i > 0\<close> being \<open>(i - 1) div 2\<close>.\<close>

definition heap_invariant :: "('a \<Rightarrow> 'a \<Rightarrow> bool) \<Rightarrow> 'a list \<Rightarrow> bool" where
  "heap_invariant cmp xs \<longleftrightarrow>
     (\<forall>i. 0 < i \<and> i < length xs \<longrightarrow> \<not> cmp (xs ! ((i - 1) div 2)) (xs ! i))"

text \<open>A strict total order: a strict weak order in which two different elements are
  never equivalent.\<close>

definition strict_total_order :: "('a \<Rightarrow> 'a \<Rightarrow> bool) \<Rightarrow> bool" where
  "strict_total_order cmp \<longleftrightarrow> strict_weak_order cmp \<and> (\<forall>a b. a \<noteq> b \<longrightarrow> cmp a b \<or> cmp b a)"

text \<open>Two elements are equivalent when neither is before the other.\<close>

definition equivalent :: "('a \<Rightarrow> 'a \<Rightarrow> bool) \<Rightarrow> 'a \<Rightarrow> 'a \<Rightarrow> bool" where
  "equivalent cmp a b \<longleftrightarrow> \<not> cmp a b \<and> \<not> cmp b a"

text \<open>A sequence is tie-free when no two different elements of it are equivalent (equal
  elements may repeat). Every sequence is tie-free under a strict total order.\<close>

definition tie_free :: "('a \<Rightarrow> 'a \<Rightarrow> bool) \<Rightarrow> 'a list \<Rightarrow> bool" where
  "tie_free cmp xs \<longleftrightarrow> (\<forall>a \<in> set xs. \<forall>b \<in> set xs. equivalent cmp a b \<longrightarrow> a = b)"

subsection \<open>Reference definitions that follow the specification\<close>

text \<open>\<open>pops cmp m heap\<close>: the values of \<open>m\<close> consecutive applications of \<open>heap_pop\<close>, in
  pop order, or the error of the first application that fails.\<close>

fun pops :: "('a \<Rightarrow> 'a \<Rightarrow> bool) \<Rightarrow> nat \<Rightarrow> 'a list \<Rightarrow> error + 'a list" where
  "pops cmp 0 heap = Inr []"
| "pops cmp (Suc m) heap =
     (case heap_pop cmp heap of
        (Inl e, heap1) \<Rightarrow> Inl e
      | (Inr x, heap1) \<Rightarrow>
          (case pops cmp m heap1 of Inl e \<Rightarrow> Inl e | Inr out \<Rightarrow> Inr (x # out)))"



subsection \<open>Predicates of the correctness proof\<close>

text \<open>\<open>heap_on cmp xs s n\<close>: within the first \<open>n\<close> positions, every position whose parent
  is at index \<open>s\<close> or later respects its parent.\<close>

definition heap_on :: "('a \<Rightarrow> 'a \<Rightarrow> bool) \<Rightarrow> 'a list \<Rightarrow> nat \<Rightarrow> nat \<Rightarrow> bool" where
  "heap_on cmp xs s n \<longleftrightarrow>
     (\<forall>i. 0 < i \<and> i < n \<and> s \<le> (i - 1) div 2 \<longrightarrow> \<not> cmp (xs ! ((i - 1) div 2)) (xs ! i))"

text \<open>\<open>hole_inv cmp xs h n j\<close>: the same with a hole at \<open>j\<close>: pairs that involve the hole
  are left out, and the parent of the hole respects the children of the hole.\<close>

definition hole_inv :: "('a \<Rightarrow> 'a \<Rightarrow> bool) \<Rightarrow> 'a list \<Rightarrow> nat \<Rightarrow> nat \<Rightarrow> nat \<Rightarrow> bool" where
  "hole_inv cmp xs h n j \<longleftrightarrow>
     (\<forall>i. 0 < i \<and> i < n \<and> h \<le> (i - 1) div 2 \<and> i \<noteq> j \<and> (i - 1) div 2 \<noteq> j
          \<longrightarrow> \<not> cmp (xs ! ((i - 1) div 2)) (xs ! i)) \<and>
     (h < j \<longrightarrow> (\<forall>c. c < n \<and> (c = 2 * j + 1 \<or> c = 2 * j + 2)
          \<longrightarrow> \<not> cmp (xs ! ((j - 1) div 2)) (xs ! c)))"

text \<open>\<open>kids_below cmp xs n j v\<close>: the value \<open>v\<close> is not before a child of \<open>j\<close>.\<close>

definition kids_below :: "('a \<Rightarrow> 'a \<Rightarrow> bool) \<Rightarrow> 'a list \<Rightarrow> nat \<Rightarrow> nat \<Rightarrow> 'a \<Rightarrow> bool" where
  "kids_below cmp xs n j v \<longleftrightarrow>
     (\<forall>c. c < n \<and> (c = 2 * j + 1 \<or> c = 2 * j + 2) \<longrightarrow> \<not> cmp v (xs ! c))"

text \<open>The positions of the subtree rooted at \<open>h\<close>.\<close>

inductive in_subtree :: "nat \<Rightarrow> nat \<Rightarrow> bool" for h :: nat where
  root: "in_subtree h h"
| left: "in_subtree h j \<Longrightarrow> in_subtree h (2 * j + 1)"
| right: "in_subtree h j \<Longrightarrow> in_subtree h (2 * j + 2)"

text \<open>\<open>restores cmp orig h zs j\<close>: the down phase of \<open>__adjust_heap\<close>, started at \<open>h\<close> with
  the value \<open>orig ! h\<close>, has reached the hole \<open>j\<close> with the array \<open>zs\<close>, and pushing the
  value up from there gives \<open>orig\<close> back.\<close>

definition restores :: "('a \<Rightarrow> 'a \<Rightarrow> bool) \<Rightarrow> 'a list \<Rightarrow> nat \<Rightarrow> 'a list \<Rightarrow> nat \<Rightarrow> bool" where
  "restores cmp orig h zs j \<longleftrightarrow>
     length zs = length orig \<and>
     std_push_heap_impl cmp zs j h (orig ! h) = orig \<and>
     (\<forall>i. j \<le> i \<longrightarrow> zs ! i = orig ! i) \<and>
     (h < j \<longrightarrow> zs ! ((j - 1) div 2) = orig ! j)"

declare std_push_heap_impl.simps [simp del]
declare std_adjust_heap_loop.simps [simp del]
declare std_is_heap_until.simps [simp del]
declare top_k_loop.simps [simp del]
declare top_k_loop_at.simps [simp del]

section \<open>Correctness of the heap algorithms\<close>

subsection \<open>Strict weak orders and the hole invariant\<close>


lemma swo_irrefl: "strict_weak_order cmp \<Longrightarrow> \<not> cmp a a"
  by (simp add: strict_weak_order_def)

lemma swo_trans: "strict_weak_order cmp \<Longrightarrow> cmp a b \<Longrightarrow> cmp b c \<Longrightarrow> cmp a c"
  unfolding strict_weak_order_def by blast

lemma swo_asym: "strict_weak_order cmp \<Longrightarrow> cmp a b \<Longrightarrow> \<not> cmp b a"
  using swo_irrefl swo_trans by metis

lemma swo_negtrans:
  assumes "strict_weak_order cmp" "\<not> cmp a b" "\<not> cmp b c"
  shows "\<not> cmp a c"
proof
  assume ac: "cmp a c"
  have 1: "\<not> cmp b a" using assms ac swo_trans by metis
  have 2: "\<not> cmp c b" using assms ac swo_trans by metis
  have "\<not> cmp a b \<and> \<not> cmp b a \<longrightarrow> \<not> cmp b c \<and> \<not> cmp c b \<longrightarrow> \<not> cmp a c \<and> \<not> cmp c a"
    using assms(1) unfolding strict_weak_order_def by blast
  with assms 1 2 ac show False by blast
qed

lemma swo_negtrans2:
  "strict_weak_order cmp \<Longrightarrow> cmp a b \<Longrightarrow> \<not> cmp c b \<Longrightarrow> \<not> cmp c a"
  using swo_trans by metis

lemma parent_eq_iff:
  "0 < (i::nat) \<Longrightarrow> (i - 1) div 2 = j \<longleftrightarrow> i = 2 * j + 1 \<or> i = 2 * j + 2"
  by arith

lemma hole_invD1:
  "hole_inv cmp xs h n j \<Longrightarrow> 0 < i \<Longrightarrow> i < n \<Longrightarrow> h \<le> (i - 1) div 2 \<Longrightarrow> i \<noteq> j
   \<Longrightarrow> (i - 1) div 2 \<noteq> j \<Longrightarrow> \<not> cmp (xs ! ((i - 1) div 2)) (xs ! i)"
  unfolding hole_inv_def by simp

lemma hole_invD2:
  "hole_inv cmp xs h n j \<Longrightarrow> h < j \<Longrightarrow> c < n \<Longrightarrow> c = 2 * j + 1 \<or> c = 2 * j + 2
   \<Longrightarrow> \<not> cmp (xs ! ((j - 1) div 2)) (xs ! c)"
  unfolding hole_inv_def by simp

lemma hole_invI:
  assumes "\<And>i. 0 < i \<Longrightarrow> i < n \<Longrightarrow> h \<le> (i - 1) div 2 \<Longrightarrow> i \<noteq> j \<Longrightarrow> (i - 1) div 2 \<noteq> j
            \<Longrightarrow> \<not> cmp (xs ! ((i - 1) div 2)) (xs ! i)"
    and "\<And>c. h < j \<Longrightarrow> c < n \<Longrightarrow> c = 2 * j + 1 \<or> c = 2 * j + 2
            \<Longrightarrow> \<not> cmp (xs ! ((j - 1) div 2)) (xs ! c)"
  shows "hole_inv cmp xs h n j"
  unfolding hole_inv_def using assms by simp

lemma hole_inv_start: "heap_on cmp xs (Suc h) n \<Longrightarrow> hole_inv cmp xs h n h"
  unfolding heap_on_def hole_inv_def
  by (metis Suc_leI le_neq_implies_less less_irrefl)

text \<open>One step of the first loop of \<^verbatim>\<open>__adjust_heap\<close>: the child that is not before
  its sibling moves into the hole, and the hole moves to that child.\<close>

lemma hole_inv_down_step:
  assumes swo: "strict_weak_order cmp"
    and inv: "hole_inv cmp xs h n j"
    and hj: "h \<le> j" and two: "2 * j + 2 < n" and len: "n \<le> length xs"
    and c: "c = (if cmp (xs ! (2 * j + 2)) (xs ! (2 * j + 1)) then 2 * j + 1 else 2 * j + 2)"
  shows "hole_inv cmp (xs[j := xs ! c]) h n c"
proof -
  let ?ys = "xs[j := xs ! c]"
  have jl: "j < length xs" using two len by simp
  have cj: "c \<noteq> j" "(c - 1) div 2 = j" "0 < c" "c < n" using c two by auto
  have c12: "c = 2 * j + 1 \<or> c = 2 * j + 2" using c by auto
  have sib: "\<And>i. i = 2 * j + 1 \<or> i = 2 * j + 2 \<Longrightarrow> i \<noteq> c \<Longrightarrow> \<not> cmp (xs ! c) (xs ! i)"
    using c swo_asym[OF swo] by (auto split: if_splits)
  have A: "\<not> cmp (?ys ! ((i - 1) div 2)) (?ys ! i)"
    if i: "0 < i" "i < n" "h \<le> (i - 1) div 2" "i \<noteq> c" "(i - 1) div 2 \<noteq> c" for i
  proof (cases "i = j")
    case True
    then have "h < j" using i by (metis diff_less div_le_dividend le_less_trans less_one not_le order.strict_trans2)
    then have "\<not> cmp (xs ! ((j - 1) div 2)) (xs ! c)"
      using hole_invD2[OF inv _ cj(4) c12] by simp
    moreover have "(j - 1) div 2 \<noteq> j" using True i by (cases j) auto
    ultimately show ?thesis using True jl by simp
  next
    case ij: False
    show ?thesis
    proof (cases "(i - 1) div 2 = j")
      case True
      then have "i = 2 * j + 1 \<or> i = 2 * j + 2" using parent_eq_iff[OF i(1), of j] by blast
      then have "\<not> cmp (xs ! c) (xs ! i)" using sib i by blast
      then show ?thesis using True ij jl by simp
    next
      case False
      then have "\<not> cmp (xs ! ((i - 1) div 2)) (xs ! i)"
        using hole_invD1[OF inv i(1,2,3) ij] by simp
      then show ?thesis using False ij by simp
    qed
  qed
  have B: "\<not> cmp (?ys ! ((c - 1) div 2)) (?ys ! d)"
    if d: "d < n" "d = 2 * c + 1 \<or> d = 2 * c + 2" for d
  proof -
    have pd: "(d - 1) div 2 = c" "0 < d" using d by auto
    have dj: "d \<noteq> j" "(d - 1) div 2 \<noteq> j" "h \<le> (d - 1) div 2" using pd cj hj d c12 by auto
    have "\<not> cmp (xs ! ((d - 1) div 2)) (xs ! d)"
      by (rule hole_invD1[OF inv pd(2) d(1) dj(3) dj(1) dj(2)])
    then show ?thesis using pd(1) cj(1,2) jl dj(1) by simp
  qed
  show ?thesis by (rule hole_invI) (use A B in blast)+
qed


text \<open>The step for a last parent with a single child, at an even length.\<close>

lemma hole_inv_down_last:
  assumes inv: "hole_inv cmp xs h n j"
    and hj: "h \<le> j" and one: "2 * j + 2 = n" and len: "n \<le> length xs"
  shows "hole_inv cmp (xs[j := xs ! (n - 1)]) h n (n - 1)"
proof (rule hole_invI)
  let ?c = "n - 1"
  let ?ys = "xs[j := xs ! ?c]"
  have jl: "j < length xs" using one len by simp
  have cj: "?c \<noteq> j" "(?c - 1) div 2 = j" "0 < ?c" "?c < n" "?c = 2 * j + 1" using one by auto
  fix i
  assume i: "0 < i" "i < n" "h \<le> (i - 1) div 2" "i \<noteq> ?c" "(i - 1) div 2 \<noteq> ?c"
  show "\<not> cmp (?ys ! ((i - 1) div 2)) (?ys ! i)"
  proof (cases "i = j")
    case True
    then have hj': "h < j" using i by arith
    have "\<not> cmp (xs ! ((j - 1) div 2)) (xs ! ?c)"
      using hole_invD2[OF inv hj' cj(4)] cj(5) by simp
    moreover have "(j - 1) div 2 \<noteq> j" using True i by arith
    ultimately show ?thesis using True jl by simp
  next
    case ij: False
    have "(i - 1) div 2 \<noteq> j" using i one by arith
    then have "\<not> cmp (xs ! ((i - 1) div 2)) (xs ! i)"
      using hole_invD1[OF inv i(1,2,3) ij] by simp
    then show ?thesis using \<open>(i - 1) div 2 \<noteq> j\<close> ij by simp
  qed
next
  fix c
  assume "c < n" "c = 2 * (n - 1) + 1 \<or> c = 2 * (n - 1) + 2"
  then have False using one by arith
  then show "\<not> cmp (xs[j := xs ! (n - 1)] ! ((n - 1 - 1) div 2)) (xs[j := xs ! (n - 1)] ! c)" ..
qed

lemma in_subtree_ge: "in_subtree h j \<Longrightarrow> h \<le> j"
  by (induction rule: in_subtree.induct) auto

lemma in_subtree_parent: "in_subtree h j \<Longrightarrow> h < j \<Longrightarrow> in_subtree h ((j - 1) div 2)"
  by (cases rule: in_subtree.cases) auto

lemma in_subtree_child:
  "in_subtree h j \<Longrightarrow> c = 2 * j + 1 \<or> c = 2 * j + 2 \<Longrightarrow> in_subtree h c"
  using in_subtree.left[of h j] in_subtree.right[of h j] by auto

lemma kids_belowD:
  "kids_below cmp xs n j v \<Longrightarrow> c < n \<Longrightarrow> c = 2 * j + 1 \<or> c = 2 * j + 2 \<Longrightarrow> \<not> cmp v (xs ! c)"
  unfolding kids_below_def by simp

lemma kids_below_leaf: "n \<le> 2 * j + 1 \<Longrightarrow> kids_below cmp xs n j v"
  unfolding kids_below_def by auto

text \<open>One step of the loop of \<^verbatim>\<open>__push_heap\<close>: the parent of the hole is before the
  value and moves into the hole. The hole stays inside the subtree of the top index,
  so the parent of the new hole is still a position the invariant speaks about.\<close>

lemma up_step:
  assumes swo: "strict_weak_order cmp"
    and inv: "hole_inv cmp xs h n j"
    and kids: "kids_below cmp xs n j v"
    and sub: "in_subtree h j"
    and hj: "h < j" and jn: "j < n" and len: "n \<le> length xs"
    and up: "cmp (xs ! ((j - 1) div 2)) v"
  shows "hole_inv cmp (xs[j := xs ! ((j - 1) div 2)]) h n ((j - 1) div 2) \<and>
         kids_below cmp (xs[j := xs ! ((j - 1) div 2)]) n ((j - 1) div 2) v"
proof -
  let ?p = "(j - 1) div 2"
  let ?ys = "xs[j := xs ! ?p]"
  have jl: "j < length xs" using jn len by simp
  have j0: "0 < j" using hj by simp
  have pj: "?p < j" "?p \<noteq> j" using j0 by arith+
  have hp: "h \<le> ?p" using in_subtree_ge[OF in_subtree_parent[OF sub hj]] .
  have jkid: "j = 2 * ?p + 1 \<or> j = 2 * ?p + 2" using j0 by arith
  have sibl: "\<not> cmp (xs ! ?p) (xs ! c)" if c: "c < n" "c = 2 * ?p + 1 \<or> c = 2 * ?p + 2" "c \<noteq> j" for c
  proof -
    have pc: "(c - 1) div 2 = ?p" "0 < c" using c by arith+
    have "\<not> cmp (xs ! ((c - 1) div 2)) (xs ! c)"
      by (rule hole_invD1[OF inv pc(2) c(1) _ c(3)]) (use pc hp pj in simp_all)
    then show ?thesis using pc by simp
  qed
  have A: "\<not> cmp (?ys ! ((i - 1) div 2)) (?ys ! i)"
    if i: "0 < i" "i < n" "h \<le> (i - 1) div 2" "i \<noteq> ?p" "(i - 1) div 2 \<noteq> ?p" for i
  proof (cases "(i - 1) div 2 = j")
    case True
    then have ik: "i = 2 * j + 1 \<or> i = 2 * j + 2" "i \<noteq> j" using i by arith+
    have "\<not> cmp (xs ! ?p) (xs ! i)" by (rule hole_invD2[OF inv hj i(2) ik(1)])
    then show ?thesis using True ik jl by simp
  next
    case False
    have ij: "i \<noteq> j" using i by blast
    have "\<not> cmp (xs ! ((i - 1) div 2)) (xs ! i)"
      by (rule hole_invD1[OF inv i(1,2,3) ij False])
    then show ?thesis using False ij by simp
  qed
  have B: "\<not> cmp (?ys ! ((?p - 1) div 2)) (?ys ! c)"
    if c: "h < ?p" "c < n" "c = 2 * ?p + 1 \<or> c = 2 * ?p + 2" for c
  proof -
    let ?pp = "(?p - 1) div 2"
    have p0: "0 < ?p" using c by simp
    have ppj: "?pp \<noteq> j" using pj p0 by arith
    have hpp: "h \<le> ?pp" using in_subtree_ge[OF in_subtree_parent[OF in_subtree_parent[OF sub hj] c(1)]] .
    have 1: "\<not> cmp (xs ! ?pp) (xs ! ?p)"
      by (rule hole_invD1[OF inv p0 _ hpp pj(2) ppj]) (use pj jn in simp)
    show ?thesis
    proof (cases "c = j")
      case True
      then show ?thesis using 1 ppj jl by simp
    next
      case False
      have "\<not> cmp (xs ! ?pp) (xs ! c)"
        using swo_negtrans[OF swo 1 sibl[OF c(2,3) False]] .
      then show ?thesis using False ppj by simp
    qed
  qed
  have C: "\<not> cmp v (?ys ! c)" if c: "c < n" "c = 2 * ?p + 1 \<or> c = 2 * ?p + 2" for c
  proof (cases "c = j")
    case True
    then show ?thesis using swo_asym[OF swo up] jl by simp
  next
    case False
    have "\<not> cmp v (xs ! c)" using swo_trans[OF swo up] sibl[OF c False] by blast
    then show ?thesis using False by simp
  qed
  have "hole_inv cmp ?ys h n ?p" by (rule hole_invI) (use A B in blast)+
  moreover have "kids_below cmp ?ys n ?p v" unfolding kids_below_def using C by blast
  ultimately show ?thesis by blast
qed

text \<open>When the loop of \<^verbatim>\<open>__push_heap\<close> stops, storing the value closes the hole.\<close>

lemma up_finish:
  assumes inv: "hole_inv cmp xs h n j"
    and kids: "kids_below cmp xs n j v"
    and jn: "j < n" and len: "n \<le> length xs"
    and stop: "\<not> (h < j \<and> cmp (xs ! ((j - 1) div 2)) v)"
  shows "heap_on cmp (xs[j := v]) h n"
  unfolding heap_on_def
proof (intro allI impI)
  fix i
  assume "0 < i \<and> i < n \<and> h \<le> (i - 1) div 2"
  then have i: "0 < i" "i < n" "h \<le> (i - 1) div 2" by simp_all
  have jl: "j < length xs" using jn len by simp
  show "\<not> cmp (xs[j := v] ! ((i - 1) div 2)) (xs[j := v] ! i)"
  proof (cases "i = j")
    case True
    then have "h < j" "(j - 1) div 2 \<noteq> j" using i by arith+
    then show ?thesis using stop True jl by simp
  next
    case ij: False
    show ?thesis
    proof (cases "(i - 1) div 2 = j")
      case True
      then have "i = 2 * j + 1 \<or> i = 2 * j + 2" using i by arith
      then have "\<not> cmp v (xs ! i)" using kids_belowD[OF kids i(2)] by simp
      then show ?thesis using True ij jl by simp
    next
      case False
      have "\<not> cmp (xs ! ((i - 1) div 2)) (xs ! i)"
        by (rule hole_invD1[OF inv i ij False])
      then show ?thesis using False ij by simp
    qed
  qed
qed

subsection \<open>The two loops\<close>


text \<open>Moving the hole from \<open>j\<close> to \<open>p\<close> exchanges two positions of the array in which
  the value sits in the hole, so the elements stay the same.\<close>

lemma mset_hole_move:
  assumes "j < length xs" "p < length xs"
  shows "mset (xs[j := xs ! p, p := v]) = mset (xs[j := v])"
proof (cases "p = j")
  case True
  then show ?thesis by simp
next
  case False
  let ?zs = "xs[j := v]"
  have "xs[j := xs ! p, p := v] = ?zs[j := ?zs ! p, p := ?zs ! j]"
    using False assms by simp
  also have "mset \<dots> = mset ?zs"
    by (rule mset_swap) (use assms in simp_all)
  finally show ?thesis .
qed

lemma push_impl_length: "length (std_push_heap_impl cmp xs j h v) = length xs"
proof (induction cmp xs j h v rule: std_push_heap_impl.induct)
  case (1 cmp xs j h v)
  show ?case
    using 1 by (subst std_push_heap_impl.simps) (simp add: Let_def)
qed

lemma push_impl_frame: "j < k \<Longrightarrow> std_push_heap_impl cmp xs j h v ! k = xs ! k"
proof (induction cmp xs j h v rule: std_push_heap_impl.induct)
  case (1 cmp xs j h v)
  have pj: "(j - 1) div 2 < k" using 1(2) by arith
  show ?case
    using 1(1)[OF refl _ pj] 1(2)
    by (subst std_push_heap_impl.simps) (simp add: Let_def)
qed

lemma push_impl_mset:
  "j < length xs \<Longrightarrow> mset (std_push_heap_impl cmp xs j h v) = mset (xs[j := v])"
proof (induction cmp xs j h v rule: std_push_heap_impl.induct)
  case (1 cmp xs j h v)
  let ?p = "(j - 1) div 2"
  have pl: "?p < length xs" using 1(2) by arith
  show ?case
  proof (cases "h < j \<and> cmp (xs ! ?p) v")
    case True
    have "mset (std_push_heap_impl cmp (xs[j := xs ! ?p]) ?p h v) = mset (xs[j := xs ! ?p, ?p := v])"
      using 1(1)[OF refl True] pl by simp
    also have "\<dots> = mset (xs[j := v])" by (rule mset_hole_move[OF 1(2) pl])
    finally show ?thesis
      using True by (subst std_push_heap_impl.simps) (simp add: Let_def)
  next
    case False
    then show ?thesis by (subst std_push_heap_impl.simps) (auto simp add: Let_def)
  qed
qed

lemma push_impl_heap:
  "strict_weak_order cmp \<Longrightarrow> hole_inv cmp xs h n j \<Longrightarrow> kids_below cmp xs n j v \<Longrightarrow>
   in_subtree h j \<Longrightarrow> j < n \<Longrightarrow> n \<le> length xs \<Longrightarrow>
   heap_on cmp (std_push_heap_impl cmp xs j h v) h n"
proof (induction cmp xs j h v rule: std_push_heap_impl.induct)
  case (1 cmp xs j h v)
  let ?p = "(j - 1) div 2"
  show ?case
  proof (cases "h < j \<and> cmp (xs ! ?p) v")
    case True
    then have hj: "h < j" and up: "cmp (xs ! ?p) v" by simp_all
    have st: "hole_inv cmp (xs[j := xs ! ?p]) h n ?p \<and> kids_below cmp (xs[j := xs ! ?p]) n ?p v"
      by (rule up_step[OF "1.prems"(1,2,3,4) hj "1.prems"(5,6) up])
    have pn: "?p < n" using "1.prems"(5) by arith
    have "heap_on cmp (std_push_heap_impl cmp (xs[j := xs ! ?p]) ?p h v) h n"
      using "1.IH"[OF refl True "1.prems"(1) _ _ in_subtree_parent[OF "1.prems"(4) hj] pn] st "1.prems"(6)
      by simp
    then show ?thesis
      using True by (subst std_push_heap_impl.simps) (simp add: Let_def)
  next
    case False
    have "heap_on cmp (xs[j := v]) h n"
      by (rule up_finish[OF "1.prems"(2,3,5,6) False])
    then show ?thesis
      using False by (subst std_push_heap_impl.simps) (auto simp add: Let_def)
  qed
qed

text \<open>The first loop of \<^verbatim>\<open>__adjust_heap\<close> keeps \<^verbatim>\<open>__holeIndex = __secondChild\<close>,
  writes only below \<open>n\<close>, and ends at a hole that has no two children.\<close>

lemma adjust_loop_struct:
  "hole = j \<Longrightarrow> j < n \<Longrightarrow> n \<le> length xs \<Longrightarrow>
   std_adjust_heap_loop cmp xs hole j n = (ys, j', sc') \<Longrightarrow>
   sc' = j' \<and> j' < n \<and> \<not> j' < (n - 1) div 2 \<and> length ys = length xs \<and>
   mset (ys[j' := v]) = mset (xs[j := v]) \<and> (\<forall>k\<ge>n. ys ! k = xs ! k)"
proof (induction cmp xs hole j n arbitrary: ys j' sc' rule: std_adjust_heap_loop.induct)
  case (1 cmp xs hole j n)
  show ?case
  proof (cases "j < (n - 1) div 2")
    case True
    define c where "c = (if cmp (xs ! (2 * (j + 1))) (xs ! (2 * (j + 1) - 1))
                         then 2 * (j + 1) - 1 else 2 * (j + 1))"
    have cn: "c < n" "c \<noteq> j" using True c_def by (auto split: if_splits)
    have cl: "c < length xs" "j < length xs" using cn "1.prems" by simp_all
    have "std_adjust_heap_loop cmp xs j j n = std_adjust_heap_loop cmp (xs[j := xs ! c]) c c n"
      using True by (subst std_adjust_heap_loop.simps) (simp add: Let_def c_def)
    then have run: "std_adjust_heap_loop cmp (xs[j := xs ! c]) c c n = (ys, j', sc')"
      using "1.prems"(4) "1.prems"(1) by simp
    have IH: "sc' = j' \<and> j' < n \<and> \<not> j' < (n - 1) div 2 \<and> length ys = length (xs[j := xs ! c]) \<and>
       mset (ys[j' := v]) = mset (xs[j := xs ! c, c := v]) \<and> (\<forall>k\<ge>n. ys ! k = xs[j := xs ! c] ! k)"
      using "1.IH"[OF True refl c_def refl, of ys j' sc'] cn(1) run "1.prems"(1,3) by simp
    have "mset (xs[j := xs ! c, c := v]) = mset (xs[j := v])"
      by (rule mset_hole_move[OF cl(2) cl(1)])
    moreover have "\<forall>k\<ge>n. xs[j := xs ! c] ! k = xs ! k" using "1.prems"(2) by simp
    ultimately show ?thesis using IH by simp
  next
    case False
    then have "(ys, j', sc') = (xs, hole, j)"
      using "1.prems"(4) by (subst (asm) std_adjust_heap_loop.simps) simp
    then show ?thesis using False "1.prems" by simp
  qed
qed

lemma adjust_loop_inv:
  "hole = j \<Longrightarrow> strict_weak_order cmp \<Longrightarrow> hole_inv cmp xs h n j \<Longrightarrow> in_subtree h j \<Longrightarrow>
   n \<le> length xs \<Longrightarrow> std_adjust_heap_loop cmp xs hole j n = (ys, j', sc') \<Longrightarrow>
   hole_inv cmp ys h n j' \<and> in_subtree h j'"
proof (induction cmp xs hole j n arbitrary: ys j' sc' rule: std_adjust_heap_loop.induct)
  case (1 cmp xs hole j n)
  show ?case
  proof (cases "j < (n - 1) div 2")
    case True
    define c where "c = (if cmp (xs ! (2 * (j + 1))) (xs ! (2 * (j + 1) - 1))
                         then 2 * (j + 1) - 1 else 2 * (j + 1))"
    have c': "c = (if cmp (xs ! (2 * j + 2)) (xs ! (2 * j + 1)) then 2 * j + 1 else 2 * j + 2)"
      using c_def by simp
    have two: "2 * j + 2 < n" using True by arith
    have "std_adjust_heap_loop cmp xs j j n = std_adjust_heap_loop cmp (xs[j := xs ! c]) c c n"
      using True by (subst std_adjust_heap_loop.simps) (simp add: Let_def c_def)
    then have run: "std_adjust_heap_loop cmp (xs[j := xs ! c]) c c n = (ys, j', sc')"
      using "1.prems"(6) "1.prems"(1) by simp
    have inv': "hole_inv cmp (xs[j := xs ! c]) h n c"
      by (rule hole_inv_down_step[OF "1.prems"(2,3) in_subtree_ge[OF "1.prems"(4)] two "1.prems"(5) c'])
    have sub': "in_subtree h c"
      by (rule in_subtree_child[OF "1.prems"(4)]) (use c' in auto)
    show ?thesis
      using "1.IH"[OF True refl c_def refl "1.prems"(2), of ys j' sc'] inv' sub' run "1.prems"(1,5)
      by simp
  next
    case False
    then have "(ys, j', sc') = (xs, hole, j)"
      using "1.prems"(6) by (subst (asm) std_adjust_heap_loop.simps) simp
    then show ?thesis using "1.prems" by simp
  qed
qed

subsection \<open>\<^verbatim>\<open>std::__adjust_heap\<close> and \<^verbatim>\<open>std::make_heap\<close>\<close>


lemma adjust_heap_struct:
  assumes jn: "j < n" and len: "n \<le> length xs"
  shows "length (std_adjust_heap cmp xs j n v) = length xs \<and>
         mset (std_adjust_heap cmp xs j n v) = mset (xs[j := v]) \<and>
         (\<forall>k\<ge>n. std_adjust_heap cmp xs j n v ! k = xs ! k)"
proof -
  obtain ys j' sc' where run: "std_adjust_heap_loop cmp xs j j n = (ys, j', sc')"
    by (cases "std_adjust_heap_loop cmp xs j j n") auto
  have L: "sc' = j'" "j' < n" "\<not> j' < (n - 1) div 2" "length ys = length xs"
    "mset (ys[j' := v]) = mset (xs[j := v])" "\<forall>k\<ge>n. ys ! k = xs ! k"
    using adjust_loop_struct[OF refl jn len run, of v] by simp_all
  show ?thesis
  proof (cases "n mod 2 = 0 \<and> sc' = (n - 2) div 2")
    case True
    then have n2: "2 * j' + 2 = n" using L(1,2) by arith
    let ?zs = "ys[j' := ys ! (n - 1)]"
    have res: "std_adjust_heap cmp xs j n v = std_push_heap_impl cmp ?zs (n - 1) j v"
      using True run n2 L(1) by (simp add: std_adjust_heap_def Let_def)
    have nl: "n - 1 < length ys" "j' < length ys" using L(2,4) len n2 by simp_all
    have "mset (std_push_heap_impl cmp ?zs (n - 1) j v) = mset (?zs[n - 1 := v])"
      by (rule push_impl_mset) (use nl in simp)
    also have "\<dots> = mset (ys[j' := v])" by (rule mset_hole_move[OF nl(2) nl(1)])
    finally have M: "mset (std_push_heap_impl cmp ?zs (n - 1) j v) = mset (xs[j := v])"
      using L(5) by simp
    have F: "\<forall>k\<ge>n. std_push_heap_impl cmp ?zs (n - 1) j v ! k = xs ! k"
      using push_impl_frame[of "n - 1" _ cmp ?zs j v] L(6) L(2) by simp
    show ?thesis using res M F L(4) by (simp add: push_impl_length)
  next
    case False
    then have res: "std_adjust_heap cmp xs j n v = std_push_heap_impl cmp ys j' j v"
      using run by (auto simp add: std_adjust_heap_def Let_def)
    have "mset (std_push_heap_impl cmp ys j' j v) = mset (ys[j' := v])"
      by (rule push_impl_mset) (use L len in simp)
    moreover have "\<forall>k\<ge>n. std_push_heap_impl cmp ys j' j v ! k = xs ! k"
      using push_impl_frame[of j' _ cmp ys j v] L(6) L(2) by simp
    ultimately show ?thesis using res L(4,5) by (simp add: push_impl_length)
  qed
qed

lemma adjust_heap_length: "j < n \<Longrightarrow> n \<le> length xs \<Longrightarrow> length (std_adjust_heap cmp xs j n v) = length xs"
  using adjust_heap_struct[of j n xs cmp v] by simp

lemma adjust_heap_mset:
  "j < n \<Longrightarrow> n \<le> length xs \<Longrightarrow> mset (std_adjust_heap cmp xs j n v) = mset (xs[j := v])"
  using adjust_heap_struct[of j n xs cmp v] by simp

lemma adjust_heap_frame:
  "j < n \<Longrightarrow> n \<le> length xs \<Longrightarrow> n \<le> k \<Longrightarrow> std_adjust_heap cmp xs j n v ! k = xs ! k"
  using adjust_heap_struct[of j n xs cmp v] by simp

text \<open>\<^verbatim>\<open>__adjust_heap\<close> at \<open>h\<close> extends the heap from the positions after \<open>h\<close> to \<open>h\<close>.\<close>

lemma adjust_heap_heap:
  assumes swo: "strict_weak_order cmp"
    and heap: "heap_on cmp xs (Suc h) n"
    and hn: "h < n" and len: "n \<le> length xs"
  shows "heap_on cmp (std_adjust_heap cmp xs h n v) h n"
proof -
  obtain ys j' sc' where run: "std_adjust_heap_loop cmp xs h h n = (ys, j', sc')"
    by (cases "std_adjust_heap_loop cmp xs h h n") auto
  have L: "sc' = j'" "j' < n" "\<not> j' < (n - 1) div 2" "length ys = length xs"
    using adjust_loop_struct[OF refl hn len run, of undefined] by simp_all
  have I: "hole_inv cmp ys h n j'" "in_subtree h j'"
    using adjust_loop_inv[OF refl swo hole_inv_start[OF heap] in_subtree.root len run] by simp_all
  have len': "n \<le> length ys" using L(4) len by simp
  show ?thesis
  proof (cases "n mod 2 = 0 \<and> sc' = (n - 2) div 2")
    case True
    then have n2: "2 * j' + 2 = n" using L(1,2) by arith
    let ?zs = "ys[j' := ys ! (n - 1)]"
    have res: "std_adjust_heap cmp xs h n v = std_push_heap_impl cmp ?zs (n - 1) h v"
      using True run n2 L(1) by (simp add: std_adjust_heap_def Let_def)
    have inv: "hole_inv cmp ?zs h n (n - 1)"
      by (rule hole_inv_down_last[OF I(1) in_subtree_ge[OF I(2)] n2 len'])
    have sub: "in_subtree h (n - 1)"
      by (rule in_subtree_child[OF I(2)]) (use n2 in arith)
    have kids: "kids_below cmp ?zs n (n - 1) v"
      by (rule kids_below_leaf) (use n2 in arith)
    have "heap_on cmp (std_push_heap_impl cmp ?zs (n - 1) h v) h n"
      by (rule push_impl_heap[OF swo inv kids sub]) (use n2 len' in simp_all)
    then show ?thesis using res by simp
  next
    case False
    then have res: "std_adjust_heap cmp xs h n v = std_push_heap_impl cmp ys j' h v"
      using run by (auto simp add: std_adjust_heap_def Let_def)
    have leaf: "n \<le> 2 * j' + 1" using False L(1,2,3) by arith
    have "heap_on cmp (std_push_heap_impl cmp ys j' h v) h n"
      by (rule push_impl_heap[OF swo I(1) kids_below_leaf[OF leaf] I(2) L(2) len'])
    then show ?thesis using res by simp
  qed
qed

lemma make_heap_loop_struct:
  "p < n \<Longrightarrow> n \<le> length xs \<Longrightarrow>
   length (std_make_heap_loop cmp xs p n) = length xs \<and>
   mset (std_make_heap_loop cmp xs p n) = mset xs"
proof (induction p arbitrary: xs)
  case 0
  then show ?case by (simp add: adjust_heap_length adjust_heap_mset)
next
  case (Suc p)
  let ?ys = "std_adjust_heap cmp xs (Suc p) n (xs ! Suc p)"
  have "length ?ys = length xs" "mset ?ys = mset xs"
    using Suc.prems by (simp_all add: adjust_heap_length adjust_heap_mset)
  then show ?case using Suc.IH[of ?ys] Suc.prems by simp
qed

lemma make_heap_loop_heap:
  "strict_weak_order cmp \<Longrightarrow> heap_on cmp xs (Suc p) n \<Longrightarrow> p < n \<Longrightarrow> n \<le> length xs \<Longrightarrow>
   heap_on cmp (std_make_heap_loop cmp xs p n) 0 n"
proof (induction p arbitrary: xs)
  case 0
  then show ?case by (simp add: adjust_heap_heap)
next
  case (Suc p)
  let ?ys = "std_adjust_heap cmp xs (Suc p) n (xs ! Suc p)"
  have "heap_on cmp ?ys (Suc p) n"
    by (rule adjust_heap_heap[OF Suc.prems])
  moreover have "length ?ys = length xs" using Suc.prems by (simp add: adjust_heap_length)
  ultimately show ?case using Suc.IH[of ?ys] Suc.prems by simp
qed

lemma make_heap_length: "length (std_make_heap cmp xs) = length xs"
  unfolding std_make_heap_def using make_heap_loop_struct[of "(length xs - 2) div 2" "length xs" xs cmp]
  by auto

lemma make_heap_mset: "mset (std_make_heap cmp xs) = mset xs"
  unfolding std_make_heap_def using make_heap_loop_struct[of "(length xs - 2) div 2" "length xs" xs cmp]
  by auto

lemma make_heap_heap:
  assumes "strict_weak_order cmp"
  shows "heap_on cmp (std_make_heap cmp xs) 0 (length xs)"
proof (cases "length xs < 2")
  case True
  then show ?thesis unfolding std_make_heap_def heap_on_def by auto
next
  case False
  have "heap_on cmp xs (Suc ((length xs - 2) div 2)) (length xs)"
    unfolding heap_on_def by auto
  then show ?thesis
    unfolding std_make_heap_def using False make_heap_loop_heap[OF assms, of xs "(length xs - 2) div 2" "length xs"]
    by auto
qed

subsection \<open>\<^verbatim>\<open>std::is_heap\<close> and the root\<close>


lemma heap_invariant_heap_on: "heap_invariant cmp xs \<longleftrightarrow> heap_on cmp xs 0 (length xs)"
  unfolding heap_invariant_def heap_on_def by simp

text \<open>\<^verbatim>\<open>__is_heap_until\<close> keeps \<open>parent = (child - 1) div 2\<close>, so \<open>is_heap\<close> decides the
  heap invariant.\<close>

lemma is_heap_until_iff:
  "0 < c \<Longrightarrow> p = (c - 1) div 2 \<Longrightarrow>
   (std_is_heap_until cmp xs p c n = n) \<longleftrightarrow>
   (\<forall>i. c \<le> i \<and> i < n \<longrightarrow> \<not> cmp (xs ! ((i - 1) div 2)) (xs ! i))"
proof (induction cmp xs p c n rule: std_is_heap_until.induct)
  case (1 cmp xs p c n)
  show ?case
  proof (cases "c < n")
    case False
    then show ?thesis by (subst std_is_heap_until.simps) auto
  next
    case cn: True
    show ?thesis
    proof (cases "cmp (xs ! p) (xs ! c)")
      case True
      have "std_is_heap_until cmp xs p c n = c"
        using cn True by (subst std_is_heap_until.simps) simp
      moreover have "\<not> (\<forall>i. c \<le> i \<and> i < n \<longrightarrow> \<not> cmp (xs ! ((i - 1) div 2)) (xs ! i))"
        using cn True "1.prems"(2) by auto
      ultimately show ?thesis using cn by simp
    next
      case False
      let ?p' = "if c mod 2 = 0 then p + 1 else p"
      have p': "?p' = (c + 1 - 1) div 2" using "1.prems" by (auto; arith)
      have step: "std_is_heap_until cmp xs p c n = std_is_heap_until cmp xs ?p' (c + 1) n"
        using cn False by (subst std_is_heap_until.simps) simp
      have IH: "(std_is_heap_until cmp xs ?p' (c + 1) n = n) \<longleftrightarrow>
                (\<forall>i. c + 1 \<le> i \<and> i < n \<longrightarrow> \<not> cmp (xs ! ((i - 1) div 2)) (xs ! i))"
        by (rule "1.IH"[OF cn False _ p']) simp
      have "(\<forall>i. c \<le> i \<and> i < n \<longrightarrow> \<not> cmp (xs ! ((i - 1) div 2)) (xs ! i)) \<longleftrightarrow>
            (\<forall>i. c + 1 \<le> i \<and> i < n \<longrightarrow> \<not> cmp (xs ! ((i - 1) div 2)) (xs ! i))"
      proof
        assume "\<forall>i. c \<le> i \<and> i < n \<longrightarrow> \<not> cmp (xs ! ((i - 1) div 2)) (xs ! i)"
        then show "\<forall>i. c + 1 \<le> i \<and> i < n \<longrightarrow> \<not> cmp (xs ! ((i - 1) div 2)) (xs ! i)" by simp
      next
        assume R: "\<forall>i. c + 1 \<le> i \<and> i < n \<longrightarrow> \<not> cmp (xs ! ((i - 1) div 2)) (xs ! i)"
        show "\<forall>i. c \<le> i \<and> i < n \<longrightarrow> \<not> cmp (xs ! ((i - 1) div 2)) (xs ! i)"
        proof (intro allI impI)
          fix i assume i: "c \<le> i \<and> i < n"
          show "\<not> cmp (xs ! ((i - 1) div 2)) (xs ! i)"
          proof (cases "i = c")
            case True
            then show ?thesis using False "1.prems"(2) by simp
          next
            case False
            then have "c + 1 \<le> i \<and> i < n" using i by simp
            then show ?thesis using R by blast
          qed
        qed
      qed
      then show ?thesis using step IH by simp
    qed
  qed
qed

lemma is_heap_iff: "is_heap cmp xs \<longleftrightarrow> heap_invariant cmp xs"
proof -
  have "(std_is_heap_until cmp xs 0 1 (length xs) = length xs) \<longleftrightarrow>
        (\<forall>i. 1 \<le> i \<and> i < length xs \<longrightarrow> \<not> cmp (xs ! ((i - 1) div 2)) (xs ! i))"
    by (rule is_heap_until_iff) simp_all
  also have "\<dots> \<longleftrightarrow> heap_invariant cmp xs"
    unfolding heap_invariant_def by (simp add: Suc_le_eq)
  finally show ?thesis by (simp add: is_heap_def std_is_heap_def)
qed

lemma in_subtree_zero: "in_subtree 0 j"
proof (induction j rule: less_induct)
  case (less j)
  show ?case
  proof (cases "j = 0")
    case True
    then show ?thesis by (simp add: in_subtree.root)
  next
    case False
    have "in_subtree 0 ((j - 1) div 2)" by (rule less) (use False in arith)
    moreover have "j = 2 * ((j - 1) div 2) + 1 \<or> j = 2 * ((j - 1) div 2) + 2"
      using False by arith
    ultimately show ?thesis by (rule in_subtree_child)
  qed
qed

text \<open>In a heap no element is before the first one.\<close>

lemma heap_root_best:
  assumes swo: "strict_weak_order cmp" and heap: "heap_on cmp xs 0 n"
  shows "i < n \<Longrightarrow> \<not> cmp (xs ! 0) (xs ! i)"
proof (induction i rule: less_induct)
  case (less i)
  show ?case
  proof (cases "i = 0")
    case True
    then show ?thesis using swo_irrefl[OF swo] by simp
  next
    case False
    have p: "(i - 1) div 2 < i" using False by arith
    have 1: "\<not> cmp (xs ! 0) (xs ! ((i - 1) div 2))"
      by (rule less.IH[OF p]) (use p less.prems in simp)
    have 2: "\<not> cmp (xs ! ((i - 1) div 2)) (xs ! i)"
      using heap False less.prems unfolding heap_on_def by simp
    show ?thesis by (rule swo_negtrans[OF swo 1 2])
  qed
qed

subsection \<open>\<^verbatim>\<open>std::pop_heap\<close>\<close>

lemma pop_heap_length: "length (std_pop_heap cmp xs) = length xs"
  by (simp add: std_pop_heap_def Let_def adjust_heap_length)

lemma pop_heap_mset: "mset (std_pop_heap cmp xs) = mset xs"
proof (cases "length xs > 1")
  case False
  then show ?thesis by (simp add: std_pop_heap_def)
next
  case True
  let ?l = "length xs - 1"
  have "mset (std_adjust_heap cmp (xs[?l := xs ! 0]) 0 ?l (xs ! ?l)) = mset (xs[?l := xs ! 0, 0 := xs ! ?l])"
    by (rule adjust_heap_mset) (use True in simp_all)
  also have "\<dots> = mset xs" by (rule mset_swap) (use True in auto)
  finally show ?thesis using True by (simp add: std_pop_heap_def Let_def)
qed

lemma pop_heap_last: "xs \<noteq> [] \<Longrightarrow> last (std_pop_heap cmp xs) = xs ! 0"
proof (cases "length xs > 1")
  case False
  assume "xs \<noteq> []"
  with False have "length xs = 1" by (cases xs) auto
  then show ?thesis using False by (cases xs) (auto simp: std_pop_heap_def)
next
  case True
  let ?l = "length xs - 1"
  let ?r = "std_adjust_heap cmp (xs[?l := xs ! 0]) 0 ?l (xs ! ?l)"
  have len: "length ?r = length xs" using True by (simp add: adjust_heap_length)
  have "?r ! ?l = xs[?l := xs ! 0] ! ?l"
    by (rule adjust_heap_frame) (use True in simp_all)
  then have "?r ! ?l = xs ! 0" using True by simp
  moreover have "last ?r = ?r ! ?l"
    using len True by (metis last_conv_nth length_0_conv not_less_zero)
  ultimately show ?thesis using True by (simp add: std_pop_heap_def Let_def)
qed

lemma heap_on_update_outside:
  "heap_on cmp xs s n \<Longrightarrow> n \<le> k \<Longrightarrow> heap_on cmp (xs[k := a]) s n"
  unfolding heap_on_def by (auto; arith)

lemma heap_on_shrink: "heap_on cmp xs s n \<Longrightarrow> m \<le> n \<Longrightarrow> s \<le> t \<Longrightarrow> heap_on cmp xs t m"
  unfolding heap_on_def by auto

lemma heap_on_butlast: "heap_on cmp xs s n \<Longrightarrow> n < length xs \<Longrightarrow> heap_on cmp (butlast xs) s n"
  unfolding heap_on_def by (auto simp: nth_butlast; arith)

lemma pop_heap_heap:
  assumes swo: "strict_weak_order cmp" and heap: "heap_on cmp xs 0 (length xs)"
  shows "heap_on cmp (std_pop_heap cmp xs) 0 (length xs - 1)"
proof (cases "length xs > 1")
  case False
  then show ?thesis unfolding heap_on_def by auto
next
  case True
  let ?l = "length xs - 1"
  have "heap_on cmp xs (Suc 0) ?l" by (rule heap_on_shrink[OF heap]) simp_all
  then have "heap_on cmp (xs[?l := xs ! 0]) (Suc 0) ?l" by (rule heap_on_update_outside) simp
  then have "heap_on cmp (std_adjust_heap cmp (xs[?l := xs ! 0]) 0 ?l (xs ! ?l)) 0 ?l"
    by (rule adjust_heap_heap[OF swo]) (use True in simp_all)
  then show ?thesis using True by (simp add: std_pop_heap_def Let_def)
qed

subsection \<open>\<^verbatim>\<open>std::push_heap\<close>\<close>

lemma push_heap_length: "length (std_push_heap cmp xs) = length xs"
  by (simp add: std_push_heap_def Let_def push_impl_length)

lemma push_heap_mset: "mset (std_push_heap cmp xs) = mset xs"
proof (cases "xs = []")
  case True
  then show ?thesis
    by (simp add: std_push_heap_def Let_def) (subst std_push_heap_impl.simps, simp)
next
  case False
  then have "mset (std_push_heap_impl cmp xs (length xs - 1) 0 (xs ! (length xs - 1))) =
        mset (xs[length xs - 1 := xs ! (length xs - 1)])"
    by (intro push_impl_mset) simp
  then show ?thesis by (simp add: std_push_heap_def Let_def)
qed

lemma push_heap_heap:
  assumes swo: "strict_weak_order cmp" and heap: "heap_on cmp xs 0 (length xs)"
  shows "heap_on cmp (std_push_heap cmp (xs @ [v])) 0 (Suc (length xs))"
proof -
  let ?n = "length xs"
  let ?ys = "xs @ [v]"
  have inv: "hole_inv cmp ?ys 0 (Suc ?n) ?n"
  proof (rule hole_invI)
    fix i assume i: "0 < i" "i < Suc ?n" "i \<noteq> ?n" "(i - 1) div 2 \<noteq> ?n"
    then have "i < ?n" "(i - 1) div 2 < ?n" by arith+
    then show "\<not> cmp (?ys ! ((i - 1) div 2)) (?ys ! i)"
      using heap i(1) unfolding heap_on_def by (simp add: nth_append)
  next
    fix c assume "c < Suc ?n" "c = 2 * ?n + 1 \<or> c = 2 * ?n + 2"
    then have False by arith
    then show "\<not> cmp (?ys ! ((?n - 1) div 2)) (?ys ! c)" ..
  qed
  have "heap_on cmp (std_push_heap_impl cmp ?ys ?n 0 v) 0 (Suc ?n)"
    by (rule push_impl_heap[OF swo inv kids_below_leaf in_subtree_zero]) simp_all
  then show ?thesis by (simp add: std_push_heap_def Let_def)
qed

subsection \<open>\<^verbatim>\<open>std::make_heap\<close> on a tie-free heap\<close>

text \<open>On a tie-free heap \<^verbatim>\<open>__adjust_heap\<close> with the value of its starting position
  gives the array back: every element that the first loop moved up is before the value
  or equal to it, and \<^verbatim>\<open>__push_heap\<close> moves it down again.\<close>

lemma push_impl_hole_irrelevant:
  "std_push_heap_impl cmp (zs[j := a]) j h v = std_push_heap_impl cmp zs j h v"
proof (cases "h < j")
  case True
  then have pj: "(j - 1) div 2 \<noteq> j" by arith
  show ?thesis
    using pj
    by (subst std_push_heap_impl.simps, subst (2) std_push_heap_impl.simps) (simp add: Let_def)
next
  case False
  then show ?thesis
    by (subst std_push_heap_impl.simps, subst (2) std_push_heap_impl.simps) (simp add: Let_def)
qed

lemma heap_on_child:
  assumes "heap_on cmp xs 0 n" "c < n" "c = 2 * j + 1 \<or> c = 2 * j + 2"
  shows "\<not> cmp (xs ! j) (xs ! c)"
proof -
  have c: "0 < c" "(c - 1) div 2 = j" using assms(3) by arith+
  have "\<not> cmp (xs ! ((c - 1) div 2)) (xs ! c)"
    using assms(1) c(1) assms(2) unfolding heap_on_def by simp
  then show ?thesis using c(2) by simp
qed

lemma subtree_root_best:
  assumes swo: "strict_weak_order cmp" and heap: "heap_on cmp xs 0 n"
  shows "in_subtree h i \<Longrightarrow> i < n \<Longrightarrow> \<not> cmp (xs ! h) (xs ! i)"
proof (induction rule: in_subtree.induct)
  case root
  then show ?case using swo_irrefl[OF swo] by simp
next
  case (left j)
  have "\<not> cmp (xs ! j) (xs ! (2 * j + 1))"
    by (rule heap_on_child[OF heap left.prems]) simp
  moreover have "\<not> cmp (xs ! h) (xs ! j)" using left by simp
  ultimately show ?case using swo_negtrans[OF swo] by blast
next
  case (right j)
  have "\<not> cmp (xs ! j) (xs ! (2 * j + 2))"
    by (rule heap_on_child[OF heap right.prems]) simp
  moreover have "\<not> cmp (xs ! h) (xs ! j)" using right by simp
  ultimately show ?case using swo_negtrans[OF swo] by blast
qed

lemma restores_start: "h < length orig \<Longrightarrow> restores cmp orig h orig h"
  unfolding restores_def by (subst std_push_heap_impl.simps) simp

lemma restores_step:
  assumes swo: "strict_weak_order cmp" and tf: "tie_free cmp orig"
    and heap: "heap_on cmp orig 0 n" and len: "n \<le> length orig"
    and sub: "in_subtree h j" and c: "c = 2 * j + 1 \<or> c = 2 * j + 2" and cn: "c < n"
    and R: "restores cmp orig h zs j"
  shows "restores cmp orig h (zs[j := zs ! c]) c"
proof -
  let ?v = "orig ! h"
  let ?zs = "zs[j := zs ! c]"
  have hj: "h \<le> j" by (rule in_subtree_ge[OF sub])
  have cj: "j < c" "(c - 1) div 2 = j" "h < c" using c hj by arith+
  have lz: "length zs = length orig" and restore: "std_push_heap_impl cmp zs j h ?v = orig"
    and same: "\<And>i. j \<le> i \<Longrightarrow> zs ! i = orig ! i"
    and par: "h < j \<Longrightarrow> zs ! ((j - 1) div 2) = orig ! j"
    using R unfolding restores_def by simp_all
  have jl: "j < length zs" "c < length zs" using cn cj len lz by simp_all
  have zc: "zs ! c = orig ! c" using same cj by simp
  have sub_c: "in_subtree h c" by (rule in_subtree_child[OF sub c])
  have top_c: "\<not> cmp ?v (orig ! c)" by (rule subtree_root_best[OF swo heap sub_c cn])
  have "std_push_heap_impl cmp ?zs c h ?v = orig"
  proof (cases "cmp (orig ! c) ?v")
    case True
    have "?zs[c := ?zs ! j] = ?zs" using jl cj zc by (simp add: list_update_same_conv)
    then have "std_push_heap_impl cmp ?zs c h ?v = std_push_heap_impl cmp ?zs j h ?v"
      using True cj zc jl by (subst std_push_heap_impl.simps) (simp add: Let_def)
    also have "\<dots> = std_push_heap_impl cmp zs j h ?v" by (rule push_impl_hole_irrelevant)
    finally show ?thesis using restore by simp
  next
    case False
    then have "equivalent cmp (orig ! c) ?v" using top_c by (simp add: equivalent_def)
    moreover have "orig ! c \<in> set orig" "?v \<in> set orig" using cn len cj by simp_all
    ultimately have eq: "orig ! c = ?v" using tf unfolding tie_free_def by blast
    have stop: "\<not> (h < j \<and> cmp (zs ! ((j - 1) div 2)) ?v)"
    proof
      assume a: "h < j \<and> cmp (zs ! ((j - 1) div 2)) ?v"
      then have "cmp (orig ! j) (orig ! c)" using par eq by simp
      then show False using heap_on_child[OF heap cn c] by simp
    qed
    have "std_push_heap_impl cmp zs j h ?v = zs[j := ?v]"
      using stop by (subst std_push_heap_impl.simps) (auto simp add: Let_def)
    then have o: "orig = zs[j := ?v]" using restore by simp
    have "std_push_heap_impl cmp ?zs c h ?v = ?zs[c := ?v]"
      using False cj zc jl by (subst std_push_heap_impl.simps) (simp add: Let_def)
    also have "\<dots> = zs[j := ?v]"
    proof -
      have id: "zs[c := ?v] = zs" using zc eq jl by (simp add: list_update_same_conv)
      have "?zs[c := ?v] = (zs[c := ?v])[j := zs ! c]" using cj by (simp add: list_update_swap)
      then show ?thesis using id zc eq by simp
    qed
    finally show ?thesis using o by simp
  qed
  moreover have "\<forall>i. c \<le> i \<longrightarrow> ?zs ! i = orig ! i" using same cj by simp
  moreover have "?zs ! ((c - 1) div 2) = orig ! c" using cj jl zc by simp
  ultimately show ?thesis unfolding restores_def using lz by simp
qed

lemma adjust_loop_restores:
  "hole = j \<Longrightarrow> strict_weak_order cmp \<Longrightarrow> tie_free cmp orig \<Longrightarrow> heap_on cmp orig 0 n \<Longrightarrow>
   n \<le> length orig \<Longrightarrow> in_subtree h j \<Longrightarrow> restores cmp orig h zs j \<Longrightarrow>
   std_adjust_heap_loop cmp zs hole j n = (ys, j', sc') \<Longrightarrow>
   restores cmp orig h ys j' \<and> in_subtree h j'"
proof (induction cmp zs hole j n arbitrary: ys j' sc' rule: std_adjust_heap_loop.induct)
  case (1 cmp zs hole j n)
  show ?case
  proof (cases "j < (n - 1) div 2")
    case True
    define c where "c = (if cmp (zs ! (2 * (j + 1))) (zs ! (2 * (j + 1) - 1))
                         then 2 * (j + 1) - 1 else 2 * (j + 1))"
    have c12: "c = 2 * j + 1 \<or> c = 2 * j + 2" using c_def by simp
    have cn: "c < n" using True c12 by arith
    have "std_adjust_heap_loop cmp zs j j n = std_adjust_heap_loop cmp (zs[j := zs ! c]) c c n"
      using True by (subst std_adjust_heap_loop.simps) (simp add: Let_def c_def)
    then have run: "std_adjust_heap_loop cmp (zs[j := zs ! c]) c c n = (ys, j', sc')"
      using "1.prems"(8) "1.prems"(1) by simp
    have R': "restores cmp orig h (zs[j := zs ! c]) c"
      by (rule restores_step[OF "1.prems"(2,3,4,5,6) c12 cn "1.prems"(7)])
    have sub': "in_subtree h c" by (rule in_subtree_child[OF "1.prems"(6) c12])
    show ?thesis
      using "1.IH"[OF True refl c_def refl "1.prems"(2,3,4,5), of ys j' sc'] R' sub' run "1.prems"(1)
      by simp
  next
    case False
    then have "(ys, j', sc') = (zs, hole, j)"
      using "1.prems"(8) by (subst (asm) std_adjust_heap_loop.simps) simp
    then show ?thesis using "1.prems" by simp
  qed
qed

lemma adjust_heap_id:
  assumes swo: "strict_weak_order cmp" and tf: "tie_free cmp xs"
    and heap: "heap_on cmp xs 0 n" and hn: "h < n" and len: "n \<le> length xs"
  shows "std_adjust_heap cmp xs h n (xs ! h) = xs"
proof -
  obtain ys j' sc' where run: "std_adjust_heap_loop cmp xs h h n = (ys, j', sc')"
    by (cases "std_adjust_heap_loop cmp xs h h n") auto
  have L: "sc' = j'" "j' < n"
    using adjust_loop_struct[OF refl hn len run, of undefined] by simp_all
  have hl: "h < length xs" using hn len by simp
  have R: "restores cmp xs h ys j'" "in_subtree h j'"
    using adjust_loop_restores[OF refl swo tf heap len in_subtree.root restores_start[OF hl] run]
    by simp_all
  show ?thesis
  proof (cases "n mod 2 = 0 \<and> sc' = (n - 2) div 2")
    case True
    then have n2: "2 * j' + 2 = n" using L(1,2) by arith
    let ?zs = "ys[j' := ys ! (n - 1)]"
    have res: "std_adjust_heap cmp xs h n (xs ! h) = std_push_heap_impl cmp ?zs (n - 1) h (xs ! h)"
      using True run n2 L(1) by (simp add: std_adjust_heap_def Let_def)
    have "restores cmp xs h ?zs (n - 1)"
      by (rule restores_step[OF swo tf heap len R(2) _ _ R(1)]) (use n2 in arith)+
    then show ?thesis using res unfolding restores_def by simp
  next
    case False
    then have "std_adjust_heap cmp xs h n (xs ! h) = std_push_heap_impl cmp ys j' h (xs ! h)"
      using run by (auto simp add: std_adjust_heap_def Let_def)
    then show ?thesis using R(1) unfolding restores_def by simp
  qed
qed

lemma make_heap_loop_id:
  "strict_weak_order cmp \<Longrightarrow> tie_free cmp xs \<Longrightarrow> heap_on cmp xs 0 n \<Longrightarrow> p < n \<Longrightarrow> n \<le> length xs \<Longrightarrow>
   std_make_heap_loop cmp xs p n = xs"
  by (induction p) (simp_all add: adjust_heap_id)

lemma make_heap_id:
  "strict_weak_order cmp \<Longrightarrow> tie_free cmp xs \<Longrightarrow> heap_on cmp xs 0 (length xs) \<Longrightarrow>
   std_make_heap cmp xs = xs"
  unfolding std_make_heap_def
  using make_heap_loop_id[of cmp xs "length xs" "(length xs - 2) div 2"] by auto

section \<open>The functions of the header\<close>


lemma swo_less: "strict_weak_order ((<) :: 'a::linorder \<Rightarrow> 'a \<Rightarrow> bool)"
  unfolding strict_weak_order_def by auto

lemma swo_greater: "strict_weak_order (\<lambda>a b :: 'a::linorder. a > b)"
  unfolding strict_weak_order_def by auto

lemma heapify_length: "length (heapify cmp xs) = length xs"
  by (simp add: heapify_def make_heap_length)

lemma heapify_mset: "mset (heapify cmp xs) = mset xs"
  by (simp add: heapify_def make_heap_mset)

lemma heapify_is_heap: "strict_weak_order cmp \<Longrightarrow> is_heap cmp (heapify cmp xs)"
  using make_heap_heap[of cmp xs]
  by (simp add: is_heap_iff heap_invariant_heap_on heapify_def make_heap_length)

lemma heap_push_length: "length (heap_push cmp xs v) = Suc (length xs)"
  by (simp add: heap_push_def push_heap_length)

lemma heap_push_mset: "mset (heap_push cmp xs v) = add_mset v (mset xs)"
  by (simp add: heap_push_def push_heap_mset)

lemma heap_push_is_heap:
  "strict_weak_order cmp \<Longrightarrow> is_heap cmp xs \<Longrightarrow> is_heap cmp (heap_push cmp xs v)"
  using push_heap_heap[of cmp xs v]
  by (simp add: is_heap_iff heap_invariant_heap_on heap_push_def push_heap_length)

lemma heap_pop_nonempty:
  "xs \<noteq> [] \<Longrightarrow> heap_pop cmp xs = (Inr (xs ! 0), butlast (std_pop_heap cmp xs))"
  by (simp add: heap_pop_def Let_def pop_heap_last)

lemma heap_pop_length: "xs \<noteq> [] \<Longrightarrow> length (snd (heap_pop cmp xs)) = length xs - 1"
  by (simp add: heap_pop_nonempty pop_heap_length)

lemma heap_pop_mset:
  assumes "xs \<noteq> []"
  shows "mset xs = add_mset (xs ! 0) (mset (snd (heap_pop cmp xs)))"
proof -
  let ?ys = "std_pop_heap cmp xs"
  have ne: "?ys \<noteq> []" using assms pop_heap_length[of cmp xs] by (metis length_0_conv)
  have "mset ?ys = add_mset (last ?ys) (mset (butlast ?ys))"
    using ne by (metis append_butlast_last_id mset.simps(1) mset.simps(2) mset_append union_mset_add_mset_right add.right_neutral)
  then show ?thesis using assms by (simp add: heap_pop_nonempty pop_heap_mset pop_heap_last)
qed

lemma heap_pop_is_heap:
  assumes "strict_weak_order cmp" "is_heap cmp xs" "xs \<noteq> []"
  shows "is_heap cmp (snd (heap_pop cmp xs))"
proof -
  have "heap_on cmp (std_pop_heap cmp xs) 0 (length xs - 1)"
    by (rule pop_heap_heap[OF assms(1)]) (use assms(2) in \<open>simp add: is_heap_iff heap_invariant_heap_on\<close>)
  then have "heap_on cmp (butlast (std_pop_heap cmp xs)) 0 (length xs - 1)"
    by (rule heap_on_butlast) (use assms(3) in \<open>simp add: pop_heap_length\<close>)
  then show ?thesis
    using assms(3) by (simp add: heap_pop_nonempty is_heap_iff heap_invariant_heap_on pop_heap_length)
qed

lemma heapify_id:
  "strict_weak_order cmp \<Longrightarrow> tie_free cmp xs \<Longrightarrow> is_heap cmp xs \<Longrightarrow> heapify cmp xs = xs"
  by (simp add: heapify_def make_heap_id is_heap_iff heap_invariant_heap_on)

lemma sto_tie_free: "strict_total_order cmp \<Longrightarrow> tie_free cmp xs"
  unfolding strict_total_order_def tie_free_def equivalent_def by blast

lemma tie_free_same_elements: "mset xs = mset ys \<Longrightarrow> tie_free cmp xs \<Longrightarrow> tie_free cmp ys"
  unfolding tie_free_def using mset_eq_setD by blast

subsection \<open>The drain loop terminates\<close>

termination drain
proof (relation "measure (\<lambda>(cmp, heap). length heap)")
  show "wf (measure (\<lambda>(cmp :: 'a \<Rightarrow> 'a \<Rightarrow> bool, heap). length heap))" by simp
next
  fix cmp :: "'a \<Rightarrow> 'a \<Rightarrow> bool" and heap x heap1 xa
  assume "heap \<noteq> []" "(x, heap1) = heap_pop cmp heap"
  then have "length heap1 = length heap - 1" "length heap > 0"
    using heap_pop_length[of heap cmp] by (metis snd_conv, simp)
  then show "((cmp, heap1), (cmp, heap)) \<in> measure (\<lambda>(cmp, heap). length heap)" by simp
qed

declare drain.simps [simp del]

subsection \<open>\<open>top_k\<close>, the drain loop and sorting\<close>

lemma pops_ok: "m \<le> length heap \<Longrightarrow> \<exists>out. pops cmp m heap = Inr out \<and> length out = m"
proof (induction m arbitrary: heap)
  case 0
  then show ?case by simp
next
  case (Suc m)
  then have ne: "heap \<noteq> []" by auto
  let ?h = "butlast (std_pop_heap cmp heap)"
  have "m \<le> length ?h" using Suc.prems by (simp add: pop_heap_length)
  then obtain out where "pops cmp m ?h = Inr out" "length out = m" using Suc.IH by blast
  then show ?case using ne by (simp add: heap_pop_nonempty)
qed

lemma top_k_loop_pops:
  "kk - i \<le> length data \<Longrightarrow>
   \<exists>ys. pops cmp (kk - i) data = Inr ys \<and> top_k_loop cmp data out i kk = Inr (out @ ys)"
proof (induction cmp data out i kk rule: top_k_loop.induct)
  case (1 cmp data out i kk)
  show ?case
  proof (cases "i < kk")
    case False
    then show ?thesis by (subst top_k_loop.simps) simp
  next
    case True
    then have ne: "data \<noteq> []" using "1.prems" by auto
    let ?d = "butlast (std_pop_heap cmp data)"
    have pop: "heap_pop cmp data = (Inr (data ! 0), ?d)" by (rule heap_pop_nonempty[OF ne])
    have "kk - (i + 1) \<le> length ?d" using "1.prems" by (simp add: pop_heap_length)
    then obtain ys where ys: "pops cmp (kk - (i + 1)) ?d = Inr ys"
        "top_k_loop cmp ?d (out @ [data ! 0]) (i + 1) kk = Inr ((out @ [data ! 0]) @ ys)"
      using "1.IH"[OF True pop[symmetric] refl] by blast
    have "kk - i = Suc (kk - (i + 1))" using True by simp
    then have "pops cmp (kk - i) data = Inr (data ! 0 # ys)" using pop ys(1) by simp
    moreover have "top_k_loop cmp data out i kk = Inr (out @ data ! 0 # ys)"
      using True pop ys(2) by (subst top_k_loop.simps) simp
    ultimately show ?thesis by blast
  qed
qed

lemma top_k_pops:
  "top_k cmp data k = pops cmp (min k (length data)) (heapify cmp data)"
proof (cases "k = 0 \<or> data = []")
  case True
  then show ?thesis by (auto simp: top_k_def)
next
  case False
  let ?kk = "min k (length data)"
  have "?kk - 0 \<le> length (heapify cmp data)" by (simp add: heapify_length)
  then obtain ys where "pops cmp (?kk - 0) (heapify cmp data) = Inr ys"
      "top_k_loop cmp (heapify cmp data) [] 0 ?kk = Inr ([] @ ys)"
    using top_k_loop_pops by blast
  moreover have "(if k > length data then length data else k) = ?kk" by simp
  ultimately show ?thesis using False by (auto simp: top_k_def Let_def heapify_length min_def)
qed

lemma swo_flip: "strict_weak_order cmp \<Longrightarrow> strict_weak_order (\<lambda>a b. cmp b a)"
  unfolding strict_weak_order_def by blast






lemma drain_sorted:
  assumes swo: "strict_weak_order cmp"
  shows "is_heap cmp heap \<Longrightarrow>
         \<exists>out. drain cmp heap = Inr out \<and> mset out = mset heap \<and> sorted_wrt (\<lambda>a b. \<not> cmp a b) out"
proof (induction "length heap" arbitrary: heap)
  case 0
  then show ?case by (subst drain.simps) simp
next
  case (Suc n)
  then have ne: "heap \<noteq> []" by auto
  let ?h = "butlast (std_pop_heap cmp heap)"
  have pop: "heap_pop cmp heap = (Inr (heap ! 0), ?h)" by (rule heap_pop_nonempty[OF ne])
  have len: "n = length ?h" using Suc(2) by (simp add: pop_heap_length)
  have heap': "is_heap cmp ?h" using heap_pop_is_heap[OF swo Suc.prems ne] pop by simp
  obtain out where out: "drain cmp ?h = Inr out" "mset out = mset ?h"
      "sorted_wrt (\<lambda>a b. \<not> cmp a b) out"
    using Suc(1)[OF len heap'] by blast
  have ms: "mset heap = add_mset (heap ! 0) (mset ?h)"
    using heap_pop_mset[OF ne, of cmp] pop by simp
  have best: "\<not> cmp (heap ! 0) y" if "y \<in> set out" for y
  proof -
    have "y \<in># mset heap" using that out(2) ms by (metis insert_iff set_mset_add_mset_insert set_mset_mset)
    then obtain i where "i < length heap" "y = heap ! i" by (metis in_set_conv_nth set_mset_mset)
    then show ?thesis
      using heap_root_best[OF swo, of heap "length heap" i] Suc.prems
      by (simp add: is_heap_iff heap_invariant_heap_on)
  qed
  have "drain cmp heap = Inr (heap ! 0 # out)"
    using ne pop out(1) by (subst drain.simps) simp
  then show ?case using out(2,3) ms best by auto
qed

text \<open>Two sorted permutations of the same elements agree position by position up to
  equivalence: their first elements are both best, and the rest has the same
  equivalence classes.\<close>

lemma equivalent_class_eq:
  assumes "strict_weak_order cmp"
  shows "Collect (equivalent cmp a) = Collect (equivalent cmp b) \<longleftrightarrow> equivalent cmp a b"
proof
  assume "Collect (equivalent cmp a) = Collect (equivalent cmp b)"
  moreover have "equivalent cmp b b" using swo_irrefl[OF assms] by (simp add: equivalent_def)
  ultimately have "b \<in> Collect (equivalent cmp a)" by simp
  then show "equivalent cmp a b" by simp
next
  assume ab: "equivalent cmp a b"
  have tr: "\<And>x y z. equivalent cmp x y \<Longrightarrow> equivalent cmp y z \<Longrightarrow> equivalent cmp x z"
    using assms unfolding strict_weak_order_def equivalent_def by blast
  have sy: "\<And>x y. equivalent cmp x y \<Longrightarrow> equivalent cmp y x"
    unfolding equivalent_def by blast
  show "Collect (equivalent cmp a) = Collect (equivalent cmp b)"
    using ab tr sy by blast
qed

lemma sorted_same_classes:
  assumes swo: "strict_weak_order cmp"
  shows "sorted_wrt (\<lambda>a b. \<not> cmp a b) xs \<Longrightarrow> sorted_wrt (\<lambda>a b. \<not> cmp a b) ys \<Longrightarrow>
         mset (map (\<lambda>a. Collect (equivalent cmp a)) xs) = mset (map (\<lambda>a. Collect (equivalent cmp a)) ys) \<Longrightarrow>
         list_all2 (equivalent cmp) xs ys"
proof (induction xs arbitrary: ys)
  case Nil
  then show ?case by simp
next
  case (Cons x xs)
  let ?cls = "\<lambda>a. Collect (equivalent cmp a)"
  obtain y ys' where ys: "ys = y # ys'" using Cons.prems(3) by (cases ys) auto
  have nx: "\<not> cmp x z" if "z \<in> set (x # xs)" for z
    using that Cons.prems(1) swo_irrefl[OF swo] by auto
  have ny: "\<not> cmp y z" if "z \<in> set (y # ys')" for z
    using that Cons.prems(2) ys swo_irrefl[OF swo] by auto
  have "?cls y \<in># mset (map ?cls (x # xs))" using Cons.prems(3) ys by simp
  then obtain x' where x': "x' \<in> set (x # xs)" "?cls x' = ?cls y" by auto
  have "?cls x \<in># mset (map ?cls ys)" unfolding Cons.prems(3)[symmetric] by simp
  then obtain y' where y': "y' \<in> set (y # ys')" "?cls y' = ?cls x" unfolding ys by auto
  have e1: "equivalent cmp x' y" using x'(2) equivalent_class_eq[OF swo] by blast
  have e2: "equivalent cmp y' x" using y'(2) equivalent_class_eq[OF swo] by blast
  have "\<not> cmp x y" using swo_negtrans[OF swo nx[OF x'(1)]] e1 by (simp add: equivalent_def)
  moreover have "\<not> cmp y x" using swo_negtrans[OF swo ny[OF y'(1)]] e2 by (simp add: equivalent_def)
  ultimately have xy: "equivalent cmp x y" by (simp add: equivalent_def)
  then have "?cls x = ?cls y" using equivalent_class_eq[OF swo] by blast
  then have "mset (map ?cls xs) = mset (map ?cls ys')" using Cons.prems(3) ys by simp
  then have "list_all2 (equivalent cmp) xs ys'"
    using Cons.IH[of ys'] Cons.prems(1,2) ys by simp
  then show ?case using xy ys by simp
qed

lemma sorted_perm_equivalent:
  assumes "strict_weak_order cmp"
    and "sorted_wrt (\<lambda>a b. \<not> cmp a b) xs" "sorted_wrt (\<lambda>a b. \<not> cmp a b) ys" "mset xs = mset ys"
  shows "list_all2 (equivalent cmp) xs ys"
proof -
  have "mset (map (\<lambda>a. Collect (equivalent cmp a)) xs) = mset (map (\<lambda>a. Collect (equivalent cmp a)) ys)"
    using assms(4) by (metis mset_map)
  then show ?thesis using sorted_same_classes[OF assms(1,2,3)] by blast
qed


lemma sorted_perm_unique_tie_free:
  assumes swo: "strict_weak_order cmp" and tf: "tie_free cmp xs"
    and "sorted_wrt (\<lambda>a b. \<not> cmp a b) xs" "sorted_wrt (\<lambda>a b. \<not> cmp a b) ys" "mset xs = mset ys"
  shows "xs = ys"
proof -
  have "list_all2 (equivalent cmp) xs ys" by (rule sorted_perm_equivalent[OF swo assms(3,4,5)])
  moreover have "a = b" if "a \<in> set xs" "b \<in> set ys" "equivalent cmp a b" for a b
  proof -
    have "b \<in> set xs" using that(2) mset_eq_setD[OF assms(5)] by simp
    then show ?thesis using tf that(1,3) unfolding tie_free_def by blast
  qed
  ultimately have "list_all2 (=) xs ys" by (rule list.rel_mono_strong)
  then show ?thesis by (simp add: list.rel_eq)
qed

lemma equivalent_flip: "equivalent (\<lambda>a b. cmp b a) = equivalent cmp"
  by (auto simp: equivalent_def fun_eq_iff)

lemma tie_free_flip: "tie_free (\<lambda>a b. cmp b a) xs = tie_free cmp xs"
  unfolding tie_free_def equivalent_def by blast

lemma sto_less: "strict_total_order ((<) :: 'a::linorder \<Rightarrow> 'a \<Rightarrow> bool)"
  unfolding strict_total_order_def using swo_less by auto

lemma sto_greater: "strict_total_order (\<lambda>a b :: 'a::linorder. a > b)"
  unfolding strict_total_order_def using swo_greater by auto

lemma drain_heapify_sorted:
  assumes "strict_weak_order cmp"
  shows "\<exists>out. drain cmp (heapify cmp xs) = Inr out \<and> mset out = mset xs \<and>
               sorted_wrt (\<lambda>a b. \<not> cmp a b) out"
  using drain_sorted[OF assms heapify_is_heap[OF assms], of xs] by (simp add: heapify_mset)

lemma top_k_ok: "\<exists>out. top_k cmp data k = Inr out"
proof -
  have "min k (length data) \<le> length (heapify cmp data)" by (simp add: heapify_length)
  then show ?thesis
    using pops_ok[of "min k (length data)" "heapify cmp data" cmp] by (auto simp: top_k_pops)
qed

subsection \<open>The body of \<open>top_k\<close> on the store\<close>

text \<open>The loop on the store computes what the loop on the vector computes, and writes
  to the object it is given only.\<close>

lemma top_k_loop_at_frame:
  "fst (top_k_loop_at cmp r s out i kk) = top_k_loop cmp (s r) out i kk \<and>
   (\<forall>q. q \<noteq> r \<longrightarrow> snd (top_k_loop_at cmp r s out i kk) q = s q)"
proof (induction cmp r s out i kk rule: top_k_loop_at.induct)
  case (1 cmp r s out i kk)
  show ?case
  proof (cases "i < kk")
    case False
    then show ?thesis
      by (subst top_k_loop_at.simps, subst top_k_loop.simps, subst top_k_loop_at.simps) simp
  next
    case True
    obtain res d where pop: "heap_pop cmp (s r) = (res, d)" by (cases "heap_pop cmp (s r)") auto
    show ?thesis
    proof (cases res)
      case (Inl e)
      then show ?thesis
        using True pop
        by (subst top_k_loop_at.simps, subst top_k_loop.simps, subst top_k_loop_at.simps)
           (simp add: heap_pop_at_def)
    next
      case (Inr x)
      have popat: "heap_pop_at cmp r s = (Inr x, s(r := d))" using pop Inr by (simp add: heap_pop_at_def)
      have IH: "fst (top_k_loop_at cmp r (s(r := d)) (out @ [x]) (i + 1) kk) =
                  top_k_loop cmp ((s(r := d)) r) (out @ [x]) (i + 1) kk \<and>
                (\<forall>q. q \<noteq> r \<longrightarrow> snd (top_k_loop_at cmp r (s(r := d)) (out @ [x]) (i + 1) kk) q = (s(r := d)) q)"
        by (rule "1.IH"[OF True popat[symmetric] refl])
      have l: "top_k_loop_at cmp r s out i kk = top_k_loop_at cmp r (s(r := d)) (out @ [x]) (i + 1) kk"
        using True popat by (subst top_k_loop_at.simps) simp
      have r: "top_k_loop cmp (s r) out i kk = top_k_loop cmp d (out @ [x]) (i + 1) kk"
        using True pop Inr by (subst top_k_loop.simps) simp
      show ?thesis using IH l r by simp
    qed
  qed
qed

lemma top_k_at_frame:
  "fst (top_k_at cmp r k s) = top_k cmp (s r) k \<and>
   (\<forall>q. q \<noteq> r \<longrightarrow> snd (top_k_at cmp r k s) q = s q)"
  using top_k_loop_at_frame[of cmp r "heapify_at cmp r s" "[]" 0]
  by (simp add: top_k_at_def top_k_def Let_def heapify_at_def)

lemma swo_key: "strict_weak_order (\<lambda>a b :: nat \<times> nat. fst a < fst b)"
  unfolding strict_weak_order_def by auto

section \<open>The claims\<close>




text \<open>
  C2. For every input, count and comparator, \<open>top_k\<close> returns a sequence and no error;
  its length is \<open>min k n\<close>; it is the sequence of \<open>min k n\<close> consecutive \<open>heap_pop\<close>s from
  \<open>heapify\<close> of the input, in pop order; and it is empty when \<open>k = 0\<close> or the input is
  empty.
\<close>

theorem top_k_is_pops:
  "\<exists>out. top_k cmp data k = Inr out \<and>
         length out = min k (length data) \<and>
         pops cmp (min k (length data)) (heapify cmp data) = Inr out \<and>
         (k = 0 \<or> data = [] \<longrightarrow> out = [])"
proof -
  have "min k (length data) \<le> length (heapify cmp data)" by (simp add: heapify_length)
  then obtain out where out: "pops cmp (min k (length data)) (heapify cmp data) = Inr out"
      "length out = min k (length data)"
    using pops_ok by blast
  then have "k = 0 \<or> data = [] \<longrightarrow> out = []" by auto
  then show ?thesis using out top_k_pops[of cmp data k] by simp
qed

theorem top_k_is_pops_witness:
  "top_k (<) [7, 1, 9, 2, 8, 3, 6, 4, 5 :: int] 3 = Inr [9, 8, 7] \<and>
   pops (<) 3 (heapify (<) [7, 1, 9, 2, 8, 3, 6, 4, 5 :: int]) = Inr [9, 8, 7] \<and>
   top_k (<) [7, 1, 9, 2, 8, 3, 6, 4, 5 :: int] 0 = Inr [] \<and>
   top_k (<) ([] :: int list) 3 = Inr [] \<and>
   length (projr (top_k (<) [2, 1 :: int] 100)) = 2"
proof -
  have e: "top_k (<) [7, 1, 9, 2, 8, 3, 6, 4, 5 :: int] 3 = Inr [9, 8, 7]" by code_simp
  have m: "min 3 (length [7, 1, 9, 2, 8, 3, 6, 4, 5 :: int]) = 3" by simp
  have "pops (<) 3 (heapify (<) [7, 1, 9, 2, 8, 3, 6, 4, 5 :: int]) = Inr [9, 8, 7]"
    using top_k_is_pops[of "(<)" "[7, 1, 9, 2, 8, 3, 6, 4, 5 :: int]" 3] e unfolding m by auto
  moreover have "top_k (<) [7, 1, 9, 2, 8, 3, 6, 4, 5 :: int] 0 = Inr []"
    using top_k_is_pops[of "(<)" "[7, 1, 9, 2, 8, 3, 6, 4, 5 :: int]" 0] by auto
  moreover have "top_k (<) ([] :: int list) 3 = Inr []"
    using top_k_is_pops[of "(<)" "[] :: int list" 3] by auto
  moreover have "length (projr (top_k (<) [2, 1 :: int] 100)) = 2"
    using top_k_is_pops[of "(<)" "[2, 1 :: int]" 100] by auto
  ultimately show ?thesis using e by simp
qed

text \<open>
  C3 (as amended). For every strict weak order, \<open>is_heap\<close> holds after \<open>heapify\<close> of any
  sequence, after \<open>heap_push\<close> onto a sequence that satisfies \<open>is_heap\<close>, and for the
  sequence that \<open>heap_pop\<close> leaves when it is applied to a non-empty sequence that
  satisfies \<open>is_heap\<close>; and \<open>is_heap\<close> is the heap invariant of the data model.
\<close>

theorem heap_invariant_preserved:
  assumes "strict_weak_order cmp"
  shows "is_heap cmp (heapify cmp xs) \<and>
         (is_heap cmp ys \<longrightarrow> is_heap cmp (heap_push cmp ys v)) \<and>
         (is_heap cmp ys \<and> ys \<noteq> [] \<longrightarrow> is_heap cmp (snd (heap_pop cmp ys))) \<and>
         (is_heap cmp ys \<longleftrightarrow> heap_invariant cmp ys)"
  using assms heapify_is_heap[of cmp xs] heap_push_is_heap[of cmp ys v]
    heap_pop_is_heap[of cmp ys] is_heap_iff[of cmp ys]
  by blast

text \<open>The test of the repository: heapify \<open>3,1,4,1,5,9,2\<close>, push 6, pop.\<close>

theorem heap_invariant_preserved_witness:
  "strict_weak_order ((<) :: int \<Rightarrow> int \<Rightarrow> bool) \<and>
   heapify (<) [3, 1, 4, 1, 5, 9, 2 :: int] = [9, 5, 4, 1, 1, 3, 2] \<and>
   is_heap (<) [9, 5, 4, 1, 1, 3, 2 :: int] \<and>
   heap_push (<) [9, 5, 4, 1, 1, 3, 2 :: int] 6 = [9, 6, 4, 5, 1, 3, 2, 1] \<and>
   is_heap (<) (heap_push (<) [9, 5, 4, 1, 1, 3, 2 :: int] 6) \<and>
   heap_pop (<) [9, 5, 4, 1, 1, 3, 2 :: int] = (Inr 9, [5, 2, 4, 1, 1, 3]) \<and>
   is_heap (<) (snd (heap_pop (<) [9, 5, 4, 1, 1, 3, 2 :: int])) \<and>
   heap_invariant (<) [9, 5, 4, 1, 1, 3, 2 :: int]"
proof -
  have e1: "heapify (<) [3, 1, 4, 1, 5, 9, 2 :: int] = [9, 5, 4, 1, 1, 3, 2]" by code_simp
  have e2: "heap_push (<) [9, 5, 4, 1, 1, 3, 2 :: int] 6 = [9, 6, 4, 5, 1, 3, 2, 1]" by code_simp
  have e3: "heap_pop (<) [9, 5, 4, 1, 1, 3, 2 :: int] = (Inr 9, [5, 2, 4, 1, 1, 3])" by code_simp
  have ne: "[9, 5, 4, 1, 1, 3, 2 :: int] \<noteq> []" by simp
  note t = heap_invariant_preserved[OF swo_less,
      of "[3, 1, 4, 1, 5, 9, 2 :: int]" "[9, 5, 4, 1, 1, 3, 2]" 6]
  have h: "is_heap (<) [9, 5, 4, 1, 1, 3, 2 :: int]" using t e1 by simp
  show ?thesis using t h e1 e2 e3 ne swo_less[where 'a = int] by simp
qed

text \<open>C3 as it is written puts no condition on the sequence given to \<open>heap_push\<close>:
  pushing 0 onto \<open>1, 5\<close>, which is not a max-heap, leaves \<open>1, 5, 0\<close>, which is none
  either.\<close>

theorem heap_push_non_heap_counterexample:
  "strict_weak_order ((<) :: int \<Rightarrow> int \<Rightarrow> bool) \<and>
   \<not> is_heap (<) [1, 5 :: int] \<and>
   heap_push (<) [1, 5] (0 :: int) = [1, 5, 0] \<and>
   \<not> is_heap (<) (heap_push (<) [1, 5] (0 :: int))"
proof -
  have "heap_push (<) [1, 5] (0 :: int) = [1, 5, 0]" by code_simp
  moreover have "\<not> is_heap (<) [1, 5, 0 :: int]" by code_simp
  moreover have "\<not> is_heap (<) [1, 5 :: int]" by code_simp
  ultimately show ?thesis using swo_less[where 'a = int] by simp
qed

text \<open>
  C4. On a vector with zero elements \<open>heap_top\<close> and \<open>heap_pop\<close> signal the
  empty-structure error (a \<^verbatim>\<open>std::runtime_error\<close>), and the vector that \<open>heap_pop\<close>
  leaves is the empty vector it was given: the check comes before
  \<^verbatim>\<open>std::pop_heap\<close> and \<^verbatim>\<open>pop_back\<close>.
\<close>

theorem empty_heap_errors:
  "heap_top ([] :: 'a list) = Inl (Runtime_error ''heap_utils: heap_top() on empty heap'') \<and>
   heap_pop cmp ([] :: 'a list) =
     (Inl (Runtime_error ''heap_utils: heap_pop() on empty heap''), [])"
  by (simp add: heap_top_def heap_pop_def)

theorem empty_heap_errors_witness:
  "heap_top ([] :: int list) = Inl (Runtime_error ''heap_utils: heap_top() on empty heap'') \<and>
   heap_pop (<) ([] :: int list) =
     (Inl (Runtime_error ''heap_utils: heap_pop() on empty heap''), [])"
  by (rule empty_heap_errors[where 'a = int and cmp = "(<)"])

text \<open>
  C5. \<open>top_k\<close>, \<open>largest_k\<close> and \<open>smallest_k\<close> return a sequence for every input, count
  and comparator: the loop of \<open>top_k\<close> never receives the error of \<open>heap_pop\<close> as long as
  the remaining count is at most the length of the heap, which is how \<open>top_k\<close> starts
  it. \<open>heapify\<close>, \<open>heap_push\<close> and \<open>is_heap\<close> have no error path: they return a vector
  of the same length, a vector one longer, and the truth value of the heap invariant.
\<close>

theorem operations_never_fail:
  "(\<exists>out. top_k cmp data k = Inr out) \<and>
   (\<exists>out. largest_k ldata k = Inr out) \<and>
   (\<exists>out. smallest_k ldata k = Inr out) \<and>
   (kk - i \<le> length data \<longrightarrow> (\<exists>out'. top_k_loop cmp data out i kk = Inr out')) \<and>
   length (heapify cmp data) = length data \<and>
   length (heap_push cmp data v) = Suc (length data) \<and>
   (is_heap cmp data \<longleftrightarrow> heap_invariant cmp data)"
proof -
  have "kk - i \<le> length data \<longrightarrow> (\<exists>out'. top_k_loop cmp data out i kk = Inr out')"
    using top_k_loop_pops[of kk i data cmp out] by blast
  then show ?thesis
    using top_k_ok[of cmp data k] top_k_ok[of "\<lambda>a b. a < b" ldata k]
      top_k_ok[of "\<lambda>a b. a > b" ldata k]
    by (simp add: largest_k_def smallest_k_def heapify_length heap_push_length is_heap_iff)
qed


text \<open>The loop started with \<open>kk = 2\<close> on a heap of three elements.\<close>

theorem operations_never_fail_witness:
  "top_k (<) [2, 7, 1 :: int] 5 = Inr [7, 2, 1] \<and>
   largest_k [2, 7, 1 :: int] 5 = Inr [7, 2, 1] \<and>
   smallest_k [2, 7, 1 :: int] 5 = Inr [1, 2, 7] \<and>
   2 - 0 \<le> length [7, 2, 1 :: int] \<and>
   top_k_loop (<) [7, 2, 1 :: int] [] 0 2 = Inr [7, 2] \<and>
   length (heapify (<) [2, 7, 1 :: int]) = 3 \<and>
   length (heap_push (<) [2, 7, 1 :: int] 4) = 4 \<and>
   is_heap (<) [2, 7, 1 :: int] = heap_invariant (<) [2, 7, 1 :: int]"
proof -
  have e1: "top_k (<) [2, 7, 1 :: int] 5 = Inr [7, 2, 1]" by code_simp
  have e2: "largest_k [2, 7, 1 :: int] 5 = Inr [7, 2, 1]" by code_simp
  have e3: "smallest_k [2, 7, 1 :: int] 5 = Inr [1, 2, 7]" by code_simp
  have e4: "top_k_loop (<) [7, 2, 1 :: int] [] 0 2 = Inr [7, 2]" by code_simp
  show ?thesis
    using operations_never_fail[of "(<)" "[2, 7, 1 :: int]" 5 "[2, 7, 1 :: int]" 2 0 "[]" 4]
      e1 e2 e3 e4
    by simp
qed

text \<open>
  C6. \<open>largest_k\<close> is \<open>top_k\<close> with the comparator \<open><\<close> and \<open>smallest_k\<close> is \<open>top_k\<close>
  with the comparator \<open>>\<close>, and on the input of the test,
  \<open>largest_k [7,1,9,2,8,3,6,4,5] 3 = [9,8,7]\<close> and
  \<open>smallest_k [7,1,9,2,8,3,6,4,5] 4 = [1,2,3,4]\<close>.
\<close>

theorem largest_smallest_are_top_k:
  "largest_k data k = top_k (\<lambda>a b. a < b) data k \<and>
   smallest_k data k = top_k (\<lambda>a b. b < a) data k \<and>
   largest_k [7, 1, 9, 2, 8, 3, 6, 4, 5 :: int] 3 = Inr [9, 8, 7] \<and>
   smallest_k [7, 1, 9, 2, 8, 3, 6, 4, 5 :: int] 4 = Inr [1, 2, 3, 4]"
proof -
  have "largest_k [7, 1, 9, 2, 8, 3, 6, 4, 5 :: int] 3 = Inr [9, 8, 7]" by code_simp
  moreover have "smallest_k [7, 1, 9, 2, 8, 3, 6, 4, 5 :: int] 4 = Inr [1, 2, 3, 4]" by code_simp
  ultimately show ?thesis by (simp add: largest_k_def smallest_k_def)
qed

text \<open>The input of \<^verbatim>\<open>examples/top_k_example.cpp\<close>.\<close>

theorem largest_smallest_are_top_k_witness:
  "largest_k [4, 8, 1, 9, 3, 7, 2, 6, 5 :: int] 3 = top_k (\<lambda>a b. a < b) [4, 8, 1, 9, 3, 7, 2, 6, 5] 3 \<and>
   smallest_k [4, 8, 1, 9, 3, 7, 2, 6, 5 :: int] 4 = top_k (\<lambda>a b. b < a) [4, 8, 1, 9, 3, 7, 2, 6, 5] 4 \<and>
   top_k (\<lambda>a b. a < b) [4, 8, 1, 9, 3, 7, 2, 6, 5 :: int] 3 = Inr [9, 8, 7] \<and>
   top_k (\<lambda>a b. b < a) [4, 8, 1, 9, 3, 7, 2, 6, 5 :: int] 4 = Inr [1, 2, 3, 4]"
proof -
  have "top_k (\<lambda>a b. a < b) [4, 8, 1, 9, 3, 7, 2, 6, 5 :: int] 3 = Inr [9, 8, 7]" by code_simp
  moreover have "top_k (\<lambda>a b. b < a) [4, 8, 1, 9, 3, 7, 2, 6, 5 :: int] 4 = Inr [1, 2, 3, 4]"
    by code_simp
  ultimately show ?thesis
    using largest_smallest_are_top_k[of "[4, 8, 1, 9, 3, 7, 2, 6, 5 :: int]" 3]
      largest_smallest_are_top_k[of "[4, 8, 1, 9, 3, 7, 2, 6, 5 :: int]" 4]
    by simp
qed

text \<open>
  C7 (as amended). For every strict weak order and two inputs with the same multiset of
  elements, draining the heap built with the inverted comparator (the arguments
  exchanged) gives the reverse of draining the heap built with the comparator itself,
  position by position up to equivalence under the comparator. It is exactly the
  reverse when the input is tie-free, that is when no two different elements of it are
  equivalent, and so for every input when the comparator is a strict total order.
\<close>

theorem inverted_comparator_reverses:
  assumes "strict_weak_order cmp" "mset xs = mset ys"
  shows "\<exists>out out'. drain cmp (heapify cmp xs) = Inr out \<and>
           drain (\<lambda>a b. cmp b a) (heapify (\<lambda>a b. cmp b a) ys) = Inr out' \<and>
           list_all2 (equivalent cmp) out' (rev out) \<and>
           (tie_free cmp xs \<longrightarrow> out' = rev out) \<and>
           (strict_total_order cmp \<longrightarrow> out' = rev out)"
proof -
  let ?inv = "\<lambda>a b. cmp b a"
  have swo': "strict_weak_order ?inv" by (rule swo_flip[OF assms(1)])
  obtain out where out: "drain cmp (heapify cmp xs) = Inr out" "mset out = mset xs"
      "sorted_wrt (\<lambda>a b. \<not> cmp a b) out"
    using drain_heapify_sorted[OF assms(1), of xs] by blast
  obtain out' where out': "drain ?inv (heapify ?inv ys) = Inr out'" "mset out' = mset ys"
      "sorted_wrt (\<lambda>a b. \<not> cmp b a) out'"
    using drain_heapify_sorted[OF swo', of ys] by blast
  have sr: "sorted_wrt (\<lambda>a b. \<not> cmp b a) (rev out)" using out(3) by (simp add: sorted_wrt_rev)
  have ms: "mset out' = mset (rev out)" using out(2) out'(2) assms(2) by simp
  have "list_all2 (equivalent ?inv) out' (rev out)"
    by (rule sorted_perm_equivalent[OF swo' out'(3) sr ms])
  then have eqv: "list_all2 (equivalent cmp) out' (rev out)" using equivalent_flip[of cmp] by simp
  have exact: "out' = rev out" if tf: "tie_free cmp xs"
  proof -
    have "tie_free cmp out'"
      by (rule tie_free_same_elements[OF _ tf]) (use out'(2) assms(2) in simp)
    then have "tie_free ?inv out'" using tie_free_flip[of cmp out'] by simp
    then show ?thesis by (rule sorted_perm_unique_tie_free[OF swo' _ out'(3) sr ms])
  qed
  have "out' = rev out" if "strict_total_order cmp"
    by (rule exact[OF sto_tie_free[OF that]])
  then show ?thesis using out(1) out'(1) eqv exact by blast
qed

text \<open>The vector of the test of the min-heap in two orders, under \<open><\<close> and \<open>>\<close>; and two
  pairs with different keys, compared by their first component.\<close>

theorem inverted_comparator_reverses_witness:
  "strict_weak_order ((<) :: int \<Rightarrow> int \<Rightarrow> bool) \<and>
   strict_total_order ((<) :: int \<Rightarrow> int \<Rightarrow> bool) \<and>
   mset [5, 4, 3, 2, 1 :: int] = mset [2, 5, 1, 4, 3] \<and>
   tie_free (<) [5, 4, 3, 2, 1 :: int] \<and>
   drain (<) (heapify (<) [5, 4, 3, 2, 1 :: int]) = Inr [5, 4, 3, 2, 1] \<and>
   drain (\<lambda>a b. b < a) (heapify (\<lambda>a b. b < a) [2, 5, 1, 4, 3 :: int]) = Inr (rev [5, 4, 3, 2, 1]) \<and>
   strict_weak_order (\<lambda>a b :: nat \<times> nat. fst a < fst b) \<and>
   tie_free (\<lambda>a b. fst a < fst b) [(1 :: nat, 0 :: nat), (2, 1)] \<and>
   drain (\<lambda>a b. fst a < fst b) (heapify (\<lambda>a b. fst a < fst b) [(1 :: nat, 0 :: nat), (2, 1)])
     = Inr [(2 :: nat, 1 :: nat), (1, 0)] \<and>
   drain (\<lambda>a b. fst b < fst a) (heapify (\<lambda>a b. fst b < fst a) [(1 :: nat, 0 :: nat), (2, 1)])
     = Inr (rev [(2 :: nat, 1 :: nat), (1, 0)])"
proof -
  have m: "mset [5, 4, 3, 2, 1 :: int] = mset [2, 5, 1, 4, 3]" by simp
  have tf: "tie_free (<) [5, 4, 3, 2, 1 :: int]" by (rule sto_tie_free[OF sto_less])
  have d: "drain (<) (heapify (<) [5, 4, 3, 2, 1 :: int]) = Inr [5, 4, 3, 2, 1]" by code_simp
  have 1: "drain (\<lambda>a b. b < a) (heapify (\<lambda>a b. b < a) [2, 5, 1, 4, 3 :: int]) = Inr (rev [5, 4, 3, 2, 1])"
    using inverted_comparator_reverses[OF swo_less m] tf d by auto
  have tfk: "tie_free (\<lambda>a b. fst a < fst b) [(1 :: nat, 0 :: nat), (2, 1)]"
    by (simp add: tie_free_def equivalent_def)
  have dk: "drain (\<lambda>a b. fst a < fst b) (heapify (\<lambda>a b. fst a < fst b) [(1 :: nat, 0 :: nat), (2, 1)])
     = Inr [(2 :: nat, 1 :: nat), (1, 0)]" by code_simp
  have 2: "drain (\<lambda>a b. fst b < fst a) (heapify (\<lambda>a b. fst b < fst a) [(1 :: nat, 0 :: nat), (2, 1)])
     = Inr (rev [(2 :: nat, 1 :: nat), (1, 0)])"
    using inverted_comparator_reverses[OF swo_key refl, of "[(1 :: nat, 0 :: nat), (2, 1)]"] tfk dk by auto
  show ?thesis
    using m tf d 1 tfk dk 2 swo_key swo_less[where 'a = int] sto_less[where 'a = int] by blast
qed

text \<open>C7 as it is written, for any input, fails on two different pairs with the same
  first component, compared by it: neither pair is before the other under the
  comparator or under its inverse, both heaps are drained in the same order, and that
  order is not its own reverse.\<close>

theorem inverted_comparator_counterexample:
  "strict_weak_order (\<lambda>a b :: nat \<times> nat. fst a < fst b) \<and>
   drain (\<lambda>a b. fst a < fst b) (heapify (\<lambda>a b. fst a < fst b) [(1 :: nat, 0 :: nat), (1, 1)])
     = Inr [(1 :: nat, 1 :: nat), (1, 0)] \<and>
   drain (\<lambda>a b. fst b < fst a) (heapify (\<lambda>a b. fst b < fst a) [(1 :: nat, 0 :: nat), (1, 1)])
     = Inr [(1 :: nat, 1 :: nat), (1, 0)] \<and>
   [(1 :: nat, 1 :: nat), (1, 0)] \<noteq> rev [(1, 1), (1, 0)]"
proof -
  have 1: "drain (\<lambda>a b. fst a < fst b) (heapify (\<lambda>a b. fst a < fst b) [(1 :: nat, 0 :: nat), (1, 1)])
     = Inr [(1 :: nat, 1 :: nat), (1, 0)]" by code_simp
  have 2: "drain (\<lambda>a b. fst b < fst a) (heapify (\<lambda>a b. fst b < fst a) [(1 :: nat, 0 :: nat), (1, 1)])
     = Inr [(1 :: nat, 1 :: nat), (1, 0)]" by code_simp
  show ?thesis using 1 2 swo_key by simp
qed

text \<open>
  C8 (as amended). For every strict weak order, a second \<open>heapify\<close> with the same
  comparator leaves a sequence that satisfies \<open>is_heap\<close> and holds the same elements.
  When the sequence is tie-free, that is when no two different elements of it are
  equivalent under the comparator, the second call changes nothing; this is so for
  every sequence when the comparator is a strict total order.
\<close>

theorem heapify_twice:
  assumes "strict_weak_order cmp"
  shows "is_heap cmp (heapify cmp (heapify cmp xs)) \<and>
         mset (heapify cmp (heapify cmp xs)) = mset xs \<and>
         (tie_free cmp xs \<longrightarrow> heapify cmp (heapify cmp xs) = heapify cmp xs) \<and>
         (strict_total_order cmp \<longrightarrow> heapify cmp (heapify cmp xs) = heapify cmp xs)"
proof -
  have idem: "heapify cmp (heapify cmp xs) = heapify cmp xs" if tf: "tie_free cmp xs"
  proof -
    have "tie_free cmp (heapify cmp xs)"
      by (rule tie_free_same_elements[OF _ tf]) (simp add: heapify_mset)
    then show ?thesis by (rule heapify_id[OF assms _ heapify_is_heap[OF assms]])
  qed
  have "heapify cmp (heapify cmp xs) = heapify cmp xs" if "strict_total_order cmp"
    by (rule idem[OF sto_tie_free[OF that]])
  then show ?thesis using idem heapify_is_heap[OF assms] by (simp add: heapify_mset)
qed

text \<open>The vector of the test with the default comparator; and three pairs with
  different keys, compared by their first component.\<close>

theorem heapify_twice_witness:
  "strict_weak_order ((<) :: int \<Rightarrow> int \<Rightarrow> bool) \<and>
   strict_total_order ((<) :: int \<Rightarrow> int \<Rightarrow> bool) \<and>
   tie_free (<) [3, 1, 4, 1, 5, 9, 2 :: int] \<and>
   heapify (<) [3, 1, 4, 1, 5, 9, 2 :: int] = [9, 5, 4, 1, 1, 3, 2] \<and>
   heapify (<) (heapify (<) [3, 1, 4, 1, 5, 9, 2 :: int]) = [9, 5, 4, 1, 1, 3, 2] \<and>
   is_heap (<) (heapify (<) (heapify (<) [3, 1, 4, 1, 5, 9, 2 :: int])) \<and>
   strict_weak_order (\<lambda>a b :: nat \<times> nat. fst a < fst b) \<and>
   tie_free (\<lambda>a b. fst a < fst b) [(1 :: nat, 7 :: nat), (3, 7), (2, 7)] \<and>
   heapify (\<lambda>a b. fst a < fst b) [(1 :: nat, 7 :: nat), (3, 7), (2, 7)] = [(3 :: nat, 7 :: nat), (1, 7), (2, 7)] \<and>
   heapify (\<lambda>a b. fst a < fst b) (heapify (\<lambda>a b. fst a < fst b) [(1 :: nat, 7 :: nat), (3, 7), (2, 7)])
     = [(3 :: nat, 7 :: nat), (1, 7), (2, 7)]"
proof -
  have e: "heapify (<) [3, 1, 4, 1, 5, 9, 2 :: int] = [9, 5, 4, 1, 1, 3, 2]" by code_simp
  have tf: "tie_free (<) [3, 1, 4, 1, 5, 9, 2 :: int]" by (rule sto_tie_free[OF sto_less])
  note t = heapify_twice[OF swo_less, of "[3, 1, 4, 1, 5, 9, 2 :: int]"]
  have h: "is_heap (<) (heapify (<) (heapify (<) [3, 1, 4, 1, 5, 9, 2 :: int]))" using t by blast
  have "heapify (<) (heapify (<) [3, 1, 4, 1, 5, 9, 2 :: int]) = heapify (<) [3, 1, 4, 1, 5, 9, 2]"
    using t tf by blast
  then have i: "heapify (<) (heapify (<) [3, 1, 4, 1, 5, 9, 2 :: int]) = [9, 5, 4, 1, 1, 3, 2]"
    using e by simp
  have ek: "heapify (\<lambda>a b. fst a < fst b) [(1 :: nat, 7 :: nat), (3, 7), (2, 7)] = [(3 :: nat, 7 :: nat), (1, 7), (2, 7)]"
    by code_simp
  have tfk: "tie_free (\<lambda>a b. fst a < fst b) [(1 :: nat, 7 :: nat), (3, 7), (2, 7)]"
    by (simp add: tie_free_def equivalent_def)
  have "heapify (\<lambda>a b. fst a < fst b) (heapify (\<lambda>a b. fst a < fst b) [(1 :: nat, 7 :: nat), (3, 7), (2, 7)])
     = heapify (\<lambda>a b. fst a < fst b) [(1 :: nat, 7 :: nat), (3, 7), (2, 7)]"
    using heapify_twice[OF swo_key, of "[(1 :: nat, 7 :: nat), (3, 7), (2, 7)]"] tfk by blast
  then have ik: "heapify (\<lambda>a b. fst a < fst b) (heapify (\<lambda>a b. fst a < fst b) [(1 :: nat, 7 :: nat), (3, 7), (2, 7)])
     = [(3 :: nat, 7 :: nat), (1, 7), (2, 7)]" using ek by simp
  show ?thesis
    using e tf h i ek tfk ik swo_key swo_less[where 'a = int] sto_less[where 'a = int] by blast
qed

text \<open>C8 as it is written, for every sequence and every comparator, fails on two
  different pairs with the same first component, compared by it: the two pairs are
  equivalent, and \<^verbatim>\<open>std::make_heap\<close> exchanges them at every call.\<close>

theorem heapify_twice_counterexample:
  "strict_weak_order (\<lambda>a b :: nat \<times> nat. fst a < fst b) \<and>
   heapify (\<lambda>a b. fst a < fst b) [(1 :: nat, 0 :: nat), (1, 1)] = [(1 :: nat, 1), (1, 0)] \<and>
   heapify (\<lambda>a b. fst a < fst b) (heapify (\<lambda>a b. fst a < fst b) [(1 :: nat, 0 :: nat), (1, 1)])
     = [(1 :: nat, 0), (1, 1)] \<and>
   heapify (\<lambda>a b. fst a < fst b) (heapify (\<lambda>a b. fst a < fst b) [(1 :: nat, 0), (1, 1 :: nat)])
     \<noteq> heapify (\<lambda>a b. fst a < fst b) [(1, 0), (1, 1)]"
proof -
  have 1: "heapify (\<lambda>a b. fst a < fst b) [(1 :: nat, 0 :: nat), (1, 1)] = [(1 :: nat, 1), (1, 0)]"
    by code_simp
  have 2: "heapify (\<lambda>a b. fst a < fst b) [(1 :: nat, 1 :: nat), (1, 0)] = [(1 :: nat, 0), (1, 1)]"
    by code_simp
  show ?thesis using 1 2 swo_key by simp
qed

text \<open>
  C9. A call of \<open>top_k\<close>, \<open>largest_k\<close> or \<open>smallest_k\<close> with the caller's vector \<open>arg\<close>
  leaves that vector as it was: the body works on the parameter objects, which are
  different objects. The call of \<open>top_k\<close> changes no object but its parameter, and the
  result of each call is the result of the function on the caller's vector.
\<close>

theorem top_k_leaves_input:
  assumes "param \<noteq> arg" "param1 \<noteq> arg" "param1 \<noteq> param"
  shows "snd (call_top_k cmp arg param k s) arg = s arg \<and>
         (\<forall>q. q \<noteq> param \<longrightarrow> snd (call_top_k cmp arg param k s) q = s q) \<and>
         fst (call_top_k cmp arg param k s) = top_k cmp (s arg) k \<and>
         snd (call_largest_k arg param param1 k t) arg = t arg \<and>
         fst (call_largest_k arg param param1 k t) = largest_k (t arg) k \<and>
         snd (call_smallest_k arg param param1 k t) arg = t arg \<and>
         fst (call_smallest_k arg param param1 k t) = smallest_k (t arg) k"
proof -
  let ?t2 = "(t(param := t arg))(param1 := t arg, param := [])"
  have 1: "snd (call_top_k cmp arg param k s) arg = s arg \<and>
         (\<forall>q. q \<noteq> param \<longrightarrow> snd (call_top_k cmp arg param k s) q = s q) \<and>
         fst (call_top_k cmp arg param k s) = top_k cmp (s arg) k"
    using assms(1) top_k_at_frame[of cmp param k "s(param := s arg)"]
    by (simp add: call_top_k_def)
  have 2: "snd (call_largest_k arg param param1 k t) arg = t arg \<and>
         fst (call_largest_k arg param param1 k t) = largest_k (t arg) k"
    using assms top_k_at_frame[of "\<lambda>a b. a < b" param1 k ?t2]
    by (simp add: call_largest_k_def largest_k_def Let_def)
  have 3: "snd (call_smallest_k arg param param1 k t) arg = t arg \<and>
         fst (call_smallest_k arg param param1 k t) = smallest_k (t arg) k"
    using assms top_k_at_frame[of "\<lambda>a b. a > b" param1 k ?t2]
    by (simp add: call_smallest_k_def smallest_k_def Let_def)
  show ?thesis using 1 2 3 by blast
qed

text \<open>The call of the test: the caller's vector is object 0, the parameters are objects
  1 and 2. After \<open>top_k\<close> with \<open>k = 3\<close> the parameter object holds what is left of the
  heap, and the caller's vector is as before.\<close>

theorem top_k_leaves_input_witness:
  "(1 :: nat) \<noteq> 0 \<and> (2 :: nat) \<noteq> 0 \<and> (2 :: nat) \<noteq> 1 \<and>
   snd (call_top_k (<) 0 1 3 ((\<lambda>r. []) (0 := [7, 1, 9, 2, 8, 3, 6, 4, 5 :: int]))) 0
     = [7, 1, 9, 2, 8, 3, 6, 4, 5] \<and>
   snd (call_top_k (<) 0 1 3 ((\<lambda>r. []) (0 := [7, 1, 9, 2, 8, 3, 6, 4, 5 :: int]))) 1
     = [6, 5, 3, 4, 1, 2] \<and>
   fst (call_top_k (<) 0 1 3 ((\<lambda>r. []) (0 := [7, 1, 9, 2, 8, 3, 6, 4, 5 :: int])))
     = Inr [9, 8, 7] \<and>
   snd (call_smallest_k 0 1 2 4 ((\<lambda>r. []) (0 := [7, 1, 9, 2, 8, 3, 6, 4, 5 :: int]))) 0
     = [7, 1, 9, 2, 8, 3, 6, 4, 5] \<and>
   fst (call_smallest_k 0 1 2 4 ((\<lambda>r. []) (0 := [7, 1, 9, 2, 8, 3, 6, 4, 5 :: int])))
     = Inr [1, 2, 3, 4]"
proof -
  let ?s = "(\<lambda>r. []) (0 := [7, 1, 9, 2, 8, 3, 6, 4, 5 :: int])"
  have ne: "(1 :: nat) \<noteq> 0" "(2 :: nat) \<noteq> 0" "(2 :: nat) \<noteq> 1" by simp_all
  have e: "top_k (<) [7, 1, 9, 2, 8, 3, 6, 4, 5 :: int] 3 = Inr [9, 8, 7]" by code_simp
  have e': "smallest_k [7, 1, 9, 2, 8, 3, 6, 4, 5 :: int] 4 = Inr [1, 2, 3, 4]" by code_simp
  have c: "snd (call_top_k (<) 0 1 3 ?s) 1 = [6, 5, 3, 4, 1, 2]" by code_simp
  show ?thesis
    using top_k_leaves_input[OF ne, of "(<)" 3 ?s ?s] top_k_leaves_input[OF ne, of "(<)" 4 ?s ?s]
      e e' c
    by simp
qed

text \<open>
  C10. \<open>heap_top\<close> takes the vector only, no comparator, and on every non-empty vector
  it returns the element at index 0, whether or not the vector satisfies the heap
  invariant.
\<close>

theorem heap_top_is_front:
  "data \<noteq> [] \<Longrightarrow> heap_top data = Inr (data ! 0)"
  by (cases data) (simp_all add: heap_top_def)

text \<open>\<open>1, 5, 3\<close> is not a max-heap, and \<open>heap_top\<close> returns 1.\<close>

theorem heap_top_is_front_witness:
  "[1, 5, 3 :: int] \<noteq> [] \<and> \<not> is_heap (<) [1, 5, 3 :: int] \<and> heap_top [1, 5, 3 :: int] = Inr 1"
proof -
  have ne: "[1, 5, 3 :: int] \<noteq> []" by simp
  have "\<not> is_heap (<) [1, 5, 3 :: int]" by code_simp
  then show ?thesis using heap_top_is_front[OF ne] by simp
qed

end
